theory Spec2Isabelle
  imports Main "HOL-Library.Word" "HOL-Library.AList"
begin

unbundle bit_operations_syntax

section \<open>Go values shared by the packages\<close>

type_synonym uint8 = "8 word"
type_synonym uint16 = "16 word"
type_synonym uint32 = "32 word"
type_synonym uint64 = "64 word"

text \<open>
  A Go \<open>error\<close> value. \<open>gocbcore.DCPRollbackError\<close> carries the sequence number
  the server asks the client to roll back to; every other error is opaque.
\<close>

datatype error = DCPRollbackError uint64 | OtherError string

text \<open>A run-time panic: the explicit \<open>panic(err)\<close> calls and the checks of the Go runtime.\<close>

datatype panic =
    PanicError error
  | IntegerDivideByZero
  | MakeSliceLenOutOfRange
  | SliceBoundsOutOfRange

section \<open>utils.go: ChunkSlice\<close>

text \<open>
  Go's \<open>/\<close> on \<open>int\<close> truncates towards zero (HOL's \<open>div\<close> rounds down);
  the divisor is checked by the caller, since a zero divisor panics.
  Go's \<open>int\<close> is modelled as \<open>int\<close>: the length of a slice of \<open>uint16\<close> is bounded by
  the address space, and so is every chunk count that \<open>make\<close> accepts, so no intermediate
  value leaves the 64-bit range on a call that gets past \<open>make\<close>; a call with a larger
  count panics in \<open>make\<close> whatever the wrapped intermediate values are.
\<close>

definition quo :: "int \<Rightarrow> int \<Rightarrow> int" where
  "quo a b = sgn a * sgn b * (\<bar>a\<bar> div \<bar>b\<bar>)"

text \<open>
  The slice expression \<open>s[lo:hi]\<close>; it panics unless \<open>0 \<le> lo \<le> hi \<le> cap(s)\<close>.
  The capacity is taken to be the length, the least capacity a slice can have.
\<close>

definition slice_expr :: "'a list \<Rightarrow> int \<Rightarrow> int \<Rightarrow> panic + 'a list" where
  "slice_expr s lo hi =
     (if 0 \<le> lo \<and> lo \<le> hi \<and> hi \<le> int (length s)
      then Inr (take (nat (hi - lo)) (drop (nat lo) s))
      else Inl SliceBoundsOutOfRange)"

text \<open>
  The \<open>for i := 0; i < chunks; i++\<close> loop of \<open>ChunkSlice\<close>, from counter \<open>i\<close> on.
  \<open>result\<close> has \<open>chunks\<close> entries and \<open>i\<close> runs from 0 to \<open>chunks - 1\<close>, so the store
  \<open>result[i] = ...\<close> is always in range; the slice expression is the one operation of the
  loop that can panic.
\<close>

function ChunkSlice_loop ::
  "uint16 list \<Rightarrow> int \<Rightarrow> int \<Rightarrow> int \<Rightarrow> int \<Rightarrow> int \<Rightarrow> uint16 list list \<Rightarrow> panic + uint16 list list"
where
  "ChunkSlice_loop slc chunks maxChunkSize numFullChunks i startIndex result =
     (if i < chunks then
        (let endIndex = startIndex + maxChunkSize;
             endIndex = (if i \<ge> numFullChunks then endIndex - 1 else endIndex)
         in case slice_expr slc startIndex endIndex of
              Inl p \<Rightarrow> Inl p
            | Inr sub \<Rightarrow>
                ChunkSlice_loop slc chunks maxChunkSize numFullChunks (i + 1) endIndex
                  (result[nat i := sub]))
      else Inr result)"
  by pat_completeness auto
termination
  by (relation "measure (\<lambda>(slc, chunks, maxChunkSize, numFullChunks, i, startIndex, result).
        nat (chunks - i))") auto

declare ChunkSlice_loop.simps [simp del]

definition maxChunkSize_of :: "int \<Rightarrow> int \<Rightarrow> int" where
  "maxChunkSize_of len chunks = quo (len - 1) chunks + 1"

definition numFullChunks_of :: "int \<Rightarrow> int \<Rightarrow> int" where
  "numFullChunks_of len chunks = chunks - (maxChunkSize_of len chunks * chunks - len)"

text \<open>
  \<open>make([][]uint16, chunks)\<close> panics with \<open>makeslice: len out of range\<close> when \<open>chunks\<close> is
  negative and when the memory asked for, \<open>chunks\<close> slice headers of 24 bytes each, exceeds
  the limit \<open>maxAlloc\<close> of the runtime's allocator (\<open>1 << 48\<close> bytes on 64-bit Linux; the
  product overflows the machine word only beyond that limit). Running out of memory below
  the limit is a fatal error of the process and is not modelled.
\<close>

definition maxAlloc :: int where
  "maxAlloc = 2 ^ 48"

definition ChunkSlice :: "uint16 list \<Rightarrow> int \<Rightarrow> panic + uint16 list list" where
  "ChunkSlice slc chunks =
     (if chunks = 0 then Inl IntegerDivideByZero
      else
        let maxChunkSize = maxChunkSize_of (int (length slc)) chunks;
            numFullChunks = numFullChunks_of (int (length slc)) chunks
        in if chunks < 0 \<or> 24 * chunks > maxAlloc then Inl MakeSliceLenOutOfRange
           else ChunkSlice_loop slc chunks maxChunkSize numFullChunks 0 0
                  (replicate (nat chunks) []))"


section \<open>utils.go: GetCheckpointId\<close>

subsection \<open>The Go library functions it calls\<close>

text \<open>
  The digit alphabet of \<open>strconv\<close> and \<open>fmt\<close> for bases up to 16, lowercase.
\<close>

definition digit_char :: "nat \<Rightarrow> char" where
  "digit_char d = ''0123456789abcdef'' ! d"

text \<open>
  The digit loop of \<open>strconv.FormatInt\<close> and of \<open>fmt\<close>'s integer formatting: digits
  are produced from the least significant one and written leftwards into the buffer.
  The base is 10 or 16 at every call; the test \<open>2 \<le> base\<close> is there for termination.
\<close>

function format_loop :: "nat \<Rightarrow> nat \<Rightarrow> string \<Rightarrow> string" where
  "format_loop base u buf =
     (if 2 \<le> base \<and> base \<le> u
      then format_loop base (u div base) (digit_char (u mod base) # buf)
      else digit_char u # buf)"
  by pat_completeness auto
termination
  by (relation "measure (\<lambda>(base, u, buf). u)") auto

declare format_loop.simps [simp del]

text \<open>\<open>strconv.Itoa\<close>: the decimal representation, with a sign for negative values.\<close>

definition Itoa :: "int \<Rightarrow> string" where
  "Itoa i = (if i < 0 then CHR ''-'' # format_loop 10 (nat (- i)) [] else format_loop 10 (nat i) [])"

text \<open>\<open>fmt.Sprintf("%x", u)\<close> on an unsigned integer.\<close>

definition Sprintf_x :: "nat \<Rightarrow> string" where
  "Sprintf_x u = format_loop 16 u []"

text \<open>
  \<open>fmt.Sprintf("%08x", u)\<close> on an unsigned integer: width 8 with the zero flag pads the
  digits on the left with zeros up to 8 characters.
\<close>

definition Sprintf_08x :: "nat \<Rightarrow> string" where
  "Sprintf_08x u = (let digits = format_loop 16 u [] in replicate (8 - length digits) CHR ''0'' @ digits)"

text \<open>
  \<open>hash/crc32\<close>: the table of the IEEE polynomial and the table-driven update, as in the
  portable implementation (\<open>simplePopulateTable\<close>, \<open>simpleUpdate\<close>) that every other
  implementation of the package agrees with.
\<close>

definition IEEE :: uint32 where
  "IEEE = 0xedb88320"

definition table_step :: "uint32 \<Rightarrow> uint32 \<Rightarrow> uint32" where
  "table_step poly crc = (if crc AND 1 = 1 then drop_bit 1 crc XOR poly else drop_bit 1 crc)"

definition simpleMakeTable :: "uint32 \<Rightarrow> uint32 list" where
  "simpleMakeTable poly = map (\<lambda>i. (table_step poly ^^ 8) (of_nat i)) [0..<256]"

definition IEEETable :: "uint32 list" where
  "IEEETable = simpleMakeTable IEEE"

definition simpleUpdate :: "uint32 \<Rightarrow> uint32 list \<Rightarrow> uint8 list \<Rightarrow> uint32" where
  "simpleUpdate crc tab p =
     NOT (fold (\<lambda>v crc. tab ! unat ((ucast crc :: uint8) XOR v) XOR drop_bit 8 crc) p (NOT crc))"

definition Checksum :: "uint8 list \<Rightarrow> uint32 list \<Rightarrow> uint32" where
  "Checksum data tab = simpleUpdate 0 tab data"

text \<open>The conversion \<open>[]byte(s)\<close> of a string.\<close>

definition bytes_of :: "string \<Rightarrow> uint8 list" where
  "bytes_of s = map of_char s"

subsection \<open>The function\<close>

text \<open>
  \<open>Prefix\<close> is a constant of the package that is declared in another file; it is a
  parameter here.
\<close>

definition GetCheckpointId :: "string \<Rightarrow> uint16 \<Rightarrow> string \<Rightarrow> string" where
  "GetCheckpointId Prefix vbId groupName =
     (let key = Prefix @ groupName @ '':checkpoint:'' @ Itoa (uint vbId);
          crc = Checksum (bytes_of (Sprintf_x (unat vbId))) IEEETable
      in key @ ''#'' @ Sprintf_08x (unat crc))"


section \<open>The data model shared by the client and the checkpoint manager\<close>

text \<open>
  The structs of the \<open>models\<close> package and of the cluster SDK are declared outside the
  sources at hand; they are modelled from the spec's data model and from the fields the
  code reads and writes. A pointer to a struct is modelled by the struct: the code
  dereferences these pointers without a \<open>nil\<close> check, and a \<open>nil\<close> pointer is not an
  input of the model. A Go \<open>map\<close> is an association list with distinct keys: the
  order of the list is one of the orders in which \<open>range\<close> may visit the map.
\<close>

record Offset =
  VbUUID :: uint64
  SeqNo :: uint64
  StartSeqNo :: uint64
  EndSeqNo :: uint64

record CheckpointDocumentSnapshot =
  snap_StartSeqNo :: uint64
  snap_EndSeqNo :: uint64

record CheckpointDocumentCheckpoint =
  cp_VbUUID :: uint64
  cp_SeqNo :: uint64
  Snapshot :: CheckpointDocumentSnapshot

record CheckpointDocument =
  Checkpoint :: CheckpointDocumentCheckpoint
  BucketUUID :: string

record FailoverEntry =
  fe_VbUUID :: uint64
  fe_SeqNo :: uint64

text \<open>Reading a Go map: the zero value when the key is absent.\<close>

definition map_index :: "('k \<times> 'v) list \<Rightarrow> 'v \<Rightarrow> 'k \<Rightarrow> 'v" where
  "map_index m zero k = (case map_of m k of None \<Rightarrow> zero | Some v \<Rightarrow> v)"

section \<open>The couchbase client\<close>

subsection \<open>Asynchronous operations of the SDK agents\<close>

text \<open>
  An agent operation either fails at dispatch (the call returns an error and the callback
  never runs), or completes by invoking the callback with a result and an error, or is cut
  short because the context of the waiting \<open>asyncOp\<close> is done.
\<close>

datatype 'r async_outcome =
    DispatchFailed error
  | CallbackInvoked 'r "error option"
  | ContextDone error

text \<open>
  Modelled from the spec: \<open>asyncOp.Wait(op, err)\<close> is missing from the sources. It is the
  synchronous-style adaptor of section 4.1 that resolves a single-shot completion and
  surfaces the error: the dispatch error if there is one, the context's error if the context
  ends first, and \<open>nil\<close> once the callback has resolved the operation.
\<close>

definition Wait :: "'r async_outcome \<Rightarrow> error option" where
  "Wait outcome =
     (case outcome of
        DispatchFailed err \<Rightarrow> Some err
      | ContextDone err \<Rightarrow> Some err
      | CallbackInvoked result err \<Rightarrow> None)"

subsection \<open>tlsRootCaProvider and getSecurityConfig\<close>

text \<open>
  A certificate pool is the list of PEM inputs appended to it; a \<open>*x509.CertPool\<close> is an
  optional pool, \<open>None\<close> being \<open>nil\<close>.
\<close>

type_synonym CertPool = "uint8 list list"

definition NewCertPool :: CertPool where
  "NewCertPool = []"

definition AppendCertsFromPEM :: "CertPool \<Rightarrow> uint8 list \<Rightarrow> CertPool" where
  "AppendCertsFromPEM pool pemCerts = pool @ [pemCerts]"

record Config =
  Username :: string
  Password :: string
  SecureConnection :: bool
  RootCAPath :: string

text \<open>The operating system as the client sees it: \<open>os.ReadFile\<close> and \<open>os.ExpandEnv\<close>.\<close>

record os =
  ReadFile :: "string \<Rightarrow> error + uint8 list"
  ExpandEnv :: "string \<Rightarrow> string"

text \<open>
  The body of \<open>tlsRootCaProvider\<close>. It yields the final value of the local variable
  \<open>certPool\<close> next to the value the function returns.
\<close>

definition tlsRootCaProvider_body :: "os \<Rightarrow> Config \<Rightarrow> panic + (CertPool \<times> CertPool option)" where
  "tlsRootCaProvider_body os config =
     (case ReadFile os (ExpandEnv os (RootCAPath config)) of
        Inl err \<Rightarrow> Inl (PanicError err)
      | Inr cert \<Rightarrow>
          (let certPool = NewCertPool;
               certPool = AppendCertsFromPEM certPool cert
           in Inr (certPool, None)))"

definition tlsRootCaProvider :: "os \<Rightarrow> Config \<Rightarrow> panic + CertPool option" where
  "tlsRootCaProvider os config = map_sum id snd (tlsRootCaProvider_body os config)"

record SecurityConfig =
  Auth :: "string \<times> string"
  UseTLS :: bool
  TLSRootCAProvider :: "(unit \<Rightarrow> panic + CertPool option) option"

definition getSecurityConfig :: "os \<Rightarrow> Config \<Rightarrow> SecurityConfig" where
  "getSecurityConfig os cfg =
     (let config = \<lparr>Auth = (Username cfg, Password cfg), UseTLS = False, TLSRootCAProvider = None\<rparr>
      in if SecureConnection cfg
         then config\<lparr>UseTLS := True, TLSRootCAProvider := Some (\<lambda>_. tlsRootCaProvider os cfg)\<rparr>
         else config)"

subsection \<open>OpenStream and openStreamWithRollback\<close>

record OpenStreamOptions =
  FilterOptions :: "uint32 list option"

text \<open>The arguments of \<open>dcpAgent.OpenStream\<close>, in the order of its parameters.\<close>

record OpenStreamCall =
  arg_vbID :: uint16
  arg_flags :: uint32
  arg_vbUUID :: uint64
  arg_startSeqNo :: uint64
  arg_endSeqNo :: uint64
  arg_snapStartSeqNo :: uint64
  arg_snapEndSeqNo :: uint64
  arg_opts :: OpenStreamOptions

text \<open>
  What the client does to its collaborators, in order: the calls of
  \<open>dcpAgent.OpenStream\<close> and the calls of \<open>observer.SetFailoverLogs\<close>.
\<close>

datatype dcp_event =
    AgentOpenStream OpenStreamCall
  | SetFailoverLogs uint16 "FailoverEntry list"

fun open_calls :: "dcp_event list \<Rightarrow> OpenStreamCall list" where
  "open_calls [] = []"
| "open_calls (AgentOpenStream c # es) = c # open_calls es"
| "open_calls (SetFailoverLogs vbID logs # es) = open_calls es"

text \<open>
  The DCP agent is the environment: its answer to an \<open>OpenStream\<close> call may depend on all
  the calls made so far, the last of which is the one being answered. Both functions wait
  on the background context, which is never done; the model still follows \<open>Wait\<close> on
  every outcome.
\<close>

type_synonym dcp_agent = "OpenStreamCall list \<Rightarrow> FailoverEntry list async_outcome"

text \<open>
  The error the completion callback sends on the channel \<open>ch\<close>. The functions read the
  channel only after \<open>Wait\<close> has returned \<open>nil\<close>, that is, after the callback has run.
\<close>

definition callback_error :: "'r async_outcome \<Rightarrow> error option" where
  "callback_error outcome = (case outcome of CallbackInvoked result err \<Rightarrow> err | _ \<Rightarrow> None)"

text \<open>
  The completion callback that both functions pass to the agent: it hands the failover logs
  to the observer before it resolves the operation.
\<close>

definition open_callback :: "uint16 \<Rightarrow> FailoverEntry list async_outcome \<Rightarrow> dcp_event list \<Rightarrow> dcp_event list" where
  "open_callback vbID outcome tr =
     (case outcome of
        CallbackInvoked failoverLogs err \<Rightarrow> tr @ [SetFailoverLogs vbID failoverLogs]
      | _ \<Rightarrow> tr)"

definition openStreamWithRollback ::
  "dcp_agent \<Rightarrow> uint16 \<Rightarrow> uint64 \<Rightarrow> uint64 \<Rightarrow> OpenStreamOptions \<Rightarrow> dcp_event list
     \<Rightarrow> error option \<times> dcp_event list"
where
  "openStreamWithRollback dcpAgent vbID failedSeqNo rollbackSeqNo openStreamOptions tr =
     (let tr = tr @ [AgentOpenStream
                 \<lparr>arg_vbID = vbID, arg_flags = 0, arg_vbUUID = 0, arg_startSeqNo = rollbackSeqNo,
                  arg_endSeqNo = 0xffffffffffffffff, arg_snapStartSeqNo = rollbackSeqNo,
                  arg_snapEndSeqNo = rollbackSeqNo, arg_opts = openStreamOptions\<rparr>];
          outcome = dcpAgent (open_calls tr);
          tr = open_callback vbID outcome tr
      in case Wait outcome of
           Some err \<Rightarrow> (Some err, tr)
         | None \<Rightarrow> (callback_error outcome, tr))"

text \<open>
  The stream options \<open>OpenStream\<close> builds first: a collection filter when the map of
  collection IDs is not \<open>nil\<close> and the agent supports collections.
\<close>

definition stream_options :: "bool \<Rightarrow> (uint32 \<times> string) list option \<Rightarrow> OpenStreamOptions" where
  "stream_options HasCollectionsSupport collectionIDs =
     (case collectionIDs of
        Some ids \<Rightarrow>
          if HasCollectionsSupport then \<lparr>FilterOptions = Some (map fst ids)\<rparr>
          else \<lparr>FilterOptions = None\<rparr>
      | None \<Rightarrow> \<lparr>FilterOptions = None\<rparr>)"

definition OpenStream ::
  "dcp_agent \<Rightarrow> bool \<Rightarrow> uint16 \<Rightarrow> (uint32 \<times> string) list option \<Rightarrow> Offset \<Rightarrow> dcp_event list
     \<Rightarrow> error option \<times> dcp_event list"
where
  "OpenStream dcpAgent HasCollectionsSupport vbID collectionIDs offset tr =
     (let openStreamOptions = stream_options HasCollectionsSupport collectionIDs;
          tr = tr @ [AgentOpenStream
                 \<lparr>arg_vbID = vbID, arg_flags = 0, arg_vbUUID = VbUUID offset,
                  arg_startSeqNo = SeqNo offset, arg_endSeqNo = 0xffffffffffffffff,
                  arg_snapStartSeqNo = StartSeqNo offset, arg_snapEndSeqNo = EndSeqNo offset,
                  arg_opts = openStreamOptions\<rparr>];
          outcome = dcpAgent (open_calls tr);
          tr = open_callback vbID outcome tr
      in case Wait outcome of
           Some err \<Rightarrow> (Some err, tr)
         | None \<Rightarrow>
             (case callback_error outcome of
                Some (DCPRollbackError rollbackSeqNo) \<Rightarrow>
                  openStreamWithRollback dcpAgent vbID (SeqNo offset) rollbackSeqNo
                    openStreamOptions tr
              | err \<Rightarrow> (err, tr)))"

subsection \<open>DeleteDocument\<close>

record DeleteOptions =
  Key :: "uint8 list"
  Deadline :: "nat option"
  ScopeName :: string
  CollectionName :: string

text \<open>
  \<open>DeleteDocument\<close> has no result parameter: all it hands back to its caller is control.
  The model returns the calls made on the metadata agent, the only effect of the function.
\<close>

definition DeleteDocument ::
  "(DeleteOptions list \<Rightarrow> unit async_outcome) \<Rightarrow> nat option \<Rightarrow> string \<Rightarrow> string \<Rightarrow> uint8 list
     \<Rightarrow> DeleteOptions list \<Rightarrow> DeleteOptions list"
where
  "DeleteDocument metaAgent deadline scopeName collectionName id' tr =
     (let tr = tr @ [\<lparr>Key = id', Deadline = deadline, ScopeName = scopeName,
                       CollectionName = collectionName\<rparr>];
          outcome = metaAgent tr;
          err = Wait outcome
      in if err \<noteq> None then tr
         else
           (let err = callback_error outcome
            in if err \<noteq> None then tr else tr))"

section \<open>The checkpoint manager\<close>

subsection \<open>Its collaborators\<close>

text \<open>
  The \<open>Stream\<close> interface, as far as the checkpoint manager uses it: \<open>GetOffsets\<close> reads
  the offsets, the dirty set and the any-dirty flag from the stream's state, and
  \<open>UnmarkDirtyOffsets\<close> changes that state. The implementation is not part of the sources,
  so the interface is a record of functions over a state type \<open>'st\<close>. \<open>LockOffsets\<close> and
  \<open>UnlockOffsets\<close> order concurrent callers; for a single caller they are calls without
  effect on the offsets.
\<close>

record 'st Stream =
  GetOffsets :: "'st \<Rightarrow> (uint16 \<times> Offset) list \<times> (uint16 \<times> bool) list \<times> bool"
  UnmarkDirtyOffsets :: "'st \<Rightarrow> 'st"

text \<open>The arguments of one call of \<open>metadata.Save\<close>.\<close>

record save_call =
  arg_dump :: "(uint16 \<times> CheckpointDocument) list"
  arg_dirtyOffsets :: "(uint16 \<times> bool) list"
  arg_bucketUUID :: string

text \<open>The calls the checkpoint manager makes on the stream.\<close>

datatype stream_call = LockOffsets | CallGetOffsets | CallUnmarkDirtyOffsets | UnlockOffsets

text \<open>
  The world of \<open>Save\<close>: the state of the stream, the calls made on the stream and the calls
  made on the metadata backend, oldest first.
\<close>

record 'st checkpoint_world =
  stream_state :: 'st
  stream_calls :: "stream_call list"
  metadata_saves :: "save_call list"

text \<open>
  The metadata backend is the environment: the result of \<open>metadata.Save\<close> may depend on all
  the calls made so far, the last of which is the one being answered.
\<close>

type_synonym metadata_backend = "save_call list \<Rightarrow> error option"

text \<open>
  The fields of the \<open>checkpoint\<close> struct that \<open>Save\<close> and \<open>Load\<close> read; \<open>AutoReset\<close> is
  \<open>config.Checkpoint.AutoReset\<close>.
\<close>

record 'st checkpoint =
  stream :: "'st Stream"
  vbIds :: "uint16 list"
  bucketUUID :: string
  AutoReset :: string

text \<open>
  Modelled from the spec: the stream that implements \<open>GetOffsets\<close> and
  \<open>UnmarkDirtyOffsets\<close> is missing from the sources. This is the offset ledger of
  section 4.3: the offsets, the dirty set and the global any-dirty flag; \<open>GetOffsets\<close> is
  \<open>snapshotAll()\<close> and \<open>UnmarkDirtyOffsets\<close> is \<open>unmarkDirty()\<close>, which empties the
  dirty set and clears the flag.
\<close>

record ledger =
  ledger_offsets :: "(uint16 \<times> Offset) list"
  ledger_dirtyOffsets :: "(uint16 \<times> bool) list"
  ledger_anyDirtyOffset :: bool

definition ledger_stream :: "ledger Stream" where
  "ledger_stream =
     \<lparr>GetOffsets = (\<lambda>l. (ledger_offsets l, ledger_dirtyOffsets l, ledger_anyDirtyOffset l)),
      UnmarkDirtyOffsets = (\<lambda>l. l\<lparr>ledger_dirtyOffsets := [], ledger_anyDirtyOffset := False\<rparr>)\<rparr>"

subsection \<open>Save\<close>

text \<open>
  The \<open>range offsets\<close> loop of \<open>Save\<close> that fills \<open>dump\<close>. (\<open>saveLock\<close>, which \<open>Save\<close>
  takes after the early return, only orders concurrent callers and is left out.)
\<close>

fun Save_dump_loop ::
  "string \<Rightarrow> (uint16 \<times> Offset) list \<Rightarrow> (uint16 \<times> CheckpointDocument) list
     \<Rightarrow> (uint16 \<times> CheckpointDocument) list"
where
  "Save_dump_loop uuid [] dump = dump"
| "Save_dump_loop uuid ((vbID, offset) # rest) dump =
     Save_dump_loop uuid rest
       (AList.update vbID
          \<lparr>Checkpoint =
             \<lparr>cp_VbUUID = VbUUID offset, cp_SeqNo = SeqNo offset,
              Snapshot = \<lparr>snap_StartSeqNo = StartSeqNo offset, snap_EndSeqNo = EndSeqNo offset\<rparr>\<rparr>,
           BucketUUID = uuid\<rparr>
          dump)"

definition call_stream :: "stream_call \<Rightarrow> 'st checkpoint_world \<Rightarrow> 'st checkpoint_world" where
  "call_stream c w = w\<lparr>stream_calls := stream_calls w @ [c]\<rparr>"

definition Save ::
  "metadata_backend \<Rightarrow> 'st checkpoint \<Rightarrow> 'st checkpoint_world \<Rightarrow> 'st checkpoint_world"
where
  "Save metadata s w =
     (let w = call_stream LockOffsets w;
          w = call_stream CallGetOffsets w;
          (offsets, dirtyOffsets, anyDirtyOffset) = GetOffsets (stream s) (stream_state w)
      in if \<not> anyDirtyOffset then call_stream UnlockOffsets w
         else
           (let dump = Save_dump_loop (bucketUUID s) offsets [];
                w = w\<lparr>metadata_saves := metadata_saves w @
                       [\<lparr>arg_dump = dump, arg_dirtyOffsets = dirtyOffsets,
                         arg_bucketUUID = bucketUUID s\<rparr>]\<rparr>;
                err = metadata (metadata_saves w);
                w = (if err = None
                     then (call_stream CallUnmarkDirtyOffsets w)
                            \<lparr>stream_state := UnmarkDirtyOffsets (stream s) (stream_state w)\<rparr>
                     else w)
            in call_stream UnlockOffsets w))"

subsection \<open>Load\<close>

definition CheckpointAutoResetTypeLatest :: string where
  "CheckpointAutoResetTypeLatest = ''latest''"

text \<open>
  The client as \<open>Load\<close> sees it. \<open>GetFailoverLogs\<close> belongs to the interface; \<open>Load\<close> does
  not call it.
\<close>

record client =
  GetVBucketSeqNos :: "(uint16 \<times> uint64) list \<times> error option"
  GetFailoverLogs :: "uint16 \<Rightarrow> FailoverEntry list \<times> error option"

text \<open>The result of \<open>metadata.Load(vbIds, bucketUUID)\<close>: the documents, \<open>exist\<close> and the error.\<close>

type_synonym metadata_load =
  "uint16 list \<Rightarrow> string \<Rightarrow> (uint16 \<times> CheckpointDocument) list \<times> bool \<times> error option"

text \<open>The three values \<open>Load\<close> builds and returns.\<close>

type_synonym load_result = "(uint16 \<times> Offset) list \<times> (uint16 \<times> bool) list \<times> bool"

text \<open>The \<open>range dump\<close> loop of the auto-reset branch.\<close>

fun Load_latest_loop ::
  "(uint16 \<times> uint64) list \<Rightarrow> (uint16 \<times> CheckpointDocument) list \<Rightarrow> load_result \<Rightarrow> load_result"
where
  "Load_latest_loop seqNoMap [] acc = acc"
| "Load_latest_loop seqNoMap ((vbID, doc) # rest) (offsets, dirtyOffsets, anyDirtyOffset) =
     (let currentSeqNo = map_index seqNoMap 0 vbID;
          (dirtyOffsets, anyDirtyOffset) =
            (if currentSeqNo \<noteq> 0 then (AList.update vbID True dirtyOffsets, True)
             else (dirtyOffsets, anyDirtyOffset));
          offsets = AList.update vbID
            \<lparr>VbUUID = cp_VbUUID (Checkpoint doc), SeqNo = currentSeqNo,
             StartSeqNo = currentSeqNo, EndSeqNo = currentSeqNo\<rparr> offsets
      in Load_latest_loop seqNoMap rest (offsets, dirtyOffsets, anyDirtyOffset))"

text \<open>The \<open>range dump\<close> loop that takes the offsets verbatim from the documents.\<close>

fun Load_verbatim_loop ::
  "(uint16 \<times> CheckpointDocument) list \<Rightarrow> (uint16 \<times> Offset) list \<Rightarrow> (uint16 \<times> Offset) list"
where
  "Load_verbatim_loop [] offsets = offsets"
| "Load_verbatim_loop ((vbID, doc) # rest) offsets =
     Load_verbatim_loop rest
       (AList.update vbID
          \<lparr>VbUUID = cp_VbUUID (Checkpoint doc), SeqNo = cp_SeqNo (Checkpoint doc),
           StartSeqNo = snap_StartSeqNo (Snapshot (Checkpoint doc)),
           EndSeqNo = snap_EndSeqNo (Snapshot (Checkpoint doc))\<rparr>
          offsets)"

definition Load :: "metadata_load \<Rightarrow> client \<Rightarrow> 'st checkpoint \<Rightarrow> panic + load_result" where
  "Load metadata cl s =
     (let (dump, exist, err) = metadata (vbIds s) (bucketUUID s)
      in case err of
           Some e \<Rightarrow> Inl (PanicError e)
         | None \<Rightarrow>
             (let offsets = []; dirtyOffsets = []; anyDirtyOffset = False
              in if \<not> exist \<and> AutoReset s = CheckpointAutoResetTypeLatest
                 then
                   (let (seqNoMap, err) = GetVBucketSeqNos cl
                    in case err of
                         Some e \<Rightarrow> Inl (PanicError e)
                       | None \<Rightarrow>
                           Inr (Load_latest_loop seqNoMap dump (offsets, dirtyOffsets, anyDirtyOffset)))
                 else Inr (Load_verbatim_loop dump offsets, dirtyOffsets, anyDirtyOffset)))"


section \<open>Auxiliary notions for the proofs about ChunkSlice\<close>

text \<open>Cutting a list into consecutive pieces of given lengths.\<close>

fun split_by_sizes :: "'a list \<Rightarrow> nat list \<Rightarrow> 'a list list" where
  "split_by_sizes s [] = []"
| "split_by_sizes s (n # ns) = take n s # split_by_sizes (drop n s) ns"

text \<open>The length of chunk \<open>i\<close> as the loop computes it, and the index at which the chunk starts.\<close>

definition chunk_size :: "int \<Rightarrow> int \<Rightarrow> int \<Rightarrow> int" where
  "chunk_size maxChunkSize numFullChunks i =
     (if i \<ge> numFullChunks then maxChunkSize - 1 else maxChunkSize)"

definition chunk_start :: "int \<Rightarrow> int \<Rightarrow> int \<Rightarrow> int" where
  "chunk_start m f k = k * m - (if f \<le> k then k - f else 0)"

definition expected_chunks :: "uint16 list \<Rightarrow> int \<Rightarrow> uint16 list list" where
  "expected_chunks slc c =
     split_by_sizes slc
       (map (\<lambda>k. nat (chunk_size (maxChunkSize_of (int (length slc)) c)
                          (numFullChunks_of (int (length slc)) c) k)) [0..c - 1])"

section \<open>The checkpoint key in the spec's words\<close>

text \<open>
  The notions the statement about \<open>GetCheckpointId\<close> compares the library code with:
  positional notation in a base, a fixed number of hexadecimal digits, the value a string
  of digits denotes, and CRC-32 with the IEEE polynomial computed bit by bit (reflected,
  initial value and final complement \<open>0xFFFFFFFF\<close>).
\<close>

function positional :: "nat \<Rightarrow> nat \<Rightarrow> string" where
  "positional b n =
     (if 2 \<le> b \<and> b \<le> n then positional b (n div b) @ [digit_char (n mod b)] else [digit_char n])"
  by pat_completeness auto
termination
  by (relation "measure (\<lambda>(b, n). n)") auto

declare positional.simps [simp del]

fun fixed_hex :: "nat \<Rightarrow> nat \<Rightarrow> string" where
  "fixed_hex 0 n = []"
| "fixed_hex (Suc k) n = fixed_hex k (n div 16) @ [digit_char (n mod 16)]"

definition digit_value :: "char \<Rightarrow> nat" where
  "digit_value c = length (takeWhile (\<lambda>d. d \<noteq> c) ''0123456789abcdef'')"

definition string_value :: "nat \<Rightarrow> string \<Rightarrow> nat" where
  "string_value b s = foldl (\<lambda>acc c. acc * b + digit_value c) 0 s"

definition crc32_bit :: "uint32 \<Rightarrow> uint32" where
  "crc32_bit c = (if bit c 0 then drop_bit 1 c XOR 0xEDB88320 else drop_bit 1 c)"

definition crc32_byte :: "uint32 \<Rightarrow> uint8 \<Rightarrow> uint32" where
  "crc32_byte c v = (crc32_bit ^^ 8) (c XOR ucast v)"

definition crc32_ieee :: "uint8 list \<Rightarrow> uint32" where
  "crc32_ieee data = NOT (foldl crc32_byte 0xFFFFFFFF data)"

section \<open>Derived notions used in the statements\<close>

text \<open>The any-dirty flag that \<open>GetOffsets\<close> reports in a world.\<close>

definition anyDirty :: "'st checkpoint \<Rightarrow> 'st checkpoint_world \<Rightarrow> bool" where
  "anyDirty s w = snd (snd (GetOffsets (stream s) (stream_state w)))"

text \<open>The call that \<open>Save\<close> makes on the metadata backend when it gets that far.\<close>

definition the_save_call :: "'st checkpoint \<Rightarrow> 'st checkpoint_world \<Rightarrow> save_call" where
  "the_save_call s w =
     \<lparr>arg_dump = Save_dump_loop (bucketUUID s) (fst (GetOffsets (stream s) (stream_state w))) [],
      arg_dirtyOffsets = fst (snd (GetOffsets (stream s) (stream_state w))),
      arg_bucketUUID = bucketUUID s\<rparr>"

text \<open>The calls \<open>Save\<close> has added to the calls on the stream.\<close>

definition new_stream_calls ::
  "metadata_backend \<Rightarrow> 'st checkpoint \<Rightarrow> 'st checkpoint_world \<Rightarrow> stream_call list" where
  "new_stream_calls metadata s w =
     drop (length (stream_calls w)) (stream_calls (Save metadata s w))"

text \<open>The offset that the auto-reset branch of \<open>Load\<close> builds for one vBucket.\<close>

definition reset_offset :: "(uint16 \<times> uint64) list \<Rightarrow> uint16 \<Rightarrow> CheckpointDocument \<Rightarrow> Offset" where
  "reset_offset seqNoMap vbID doc =
     \<lparr>VbUUID = cp_VbUUID (Checkpoint doc), SeqNo = map_index seqNoMap 0 vbID,
      StartSeqNo = map_index seqNoMap 0 vbID, EndSeqNo = map_index seqNoMap 0 vbID\<rparr>"

section \<open>Sample inputs\<close>

text \<open>A file system with one root-CA file, and a configuration that asks for TLS.\<close>

definition sample_os :: os where
  "sample_os =
     \<lparr>ReadFile = (\<lambda>p. if p = ''/etc/ssl/ca.pem'' then Inr [45, 45, 45]
                        else Inl (OtherError ''no such file'')),
      ExpandEnv = (\<lambda>p. p)\<rparr>"

definition sample_config :: Config where
  "sample_config =
     \<lparr>Username = ''user'', Password = ''secret'', SecureConnection = True,
      RootCAPath = ''/etc/ssl/ca.pem''\<rparr>"

text \<open>
  An agent that answers the first \<open>OpenStream\<close> call with a rollback to sequence number 42
  and every later call with success and a failover log.
\<close>

definition rollback_agent :: dcp_agent where
  "rollback_agent calls =
     (if length calls = 1 then CallbackInvoked [] (Some (DCPRollbackError 42))
      else CallbackInvoked [\<lparr>fe_VbUUID = 0xBEEF, fe_SeqNo = 42\<rparr>] None)"

text \<open>An agent that answers every call with success.\<close>

definition ok_agent :: dcp_agent where
  "ok_agent calls = CallbackInvoked [\<lparr>fe_VbUUID = 0xAA, fe_SeqNo = 0\<rparr>] None"

text \<open>A stored offset, and the checkpoint document that holds it.\<close>

definition resume_offset :: Offset where
  "resume_offset = \<lparr>VbUUID = 0xAA, SeqNo = 100, StartSeqNo = 100, EndSeqNo = 200\<rparr>"

definition resume_metadata :: metadata_load where
  "resume_metadata ids uuid =
     ([(0, \<lparr>Checkpoint = \<lparr>cp_VbUUID = 0xAA, cp_SeqNo = 100,
                            Snapshot = \<lparr>snap_StartSeqNo = 100, snap_EndSeqNo = 200\<rparr>\<rparr>,
             BucketUUID = uuid\<rparr>)], True, None)"

text \<open>Backends that accept and that refuse every write.\<close>

definition ok_backend :: metadata_backend where
  "ok_backend calls = None"

definition failing_backend :: metadata_backend where
  "failing_backend calls = Some (OtherError ''write failed'')"

text \<open>A checkpoint manager over the ledger, and two worlds: nothing dirty, one offset dirty.\<close>

definition sample_checkpoint :: "ledger checkpoint" where
  "sample_checkpoint =
     \<lparr>stream = ledger_stream, vbIds = [0, 1, 2, 3], bucketUUID = ''bucket-1'',
      AutoReset = ''latest''\<rparr>"

definition clean_world :: "ledger checkpoint_world" where
  "clean_world =
     \<lparr>stream_state =
        \<lparr>ledger_offsets = [(0, \<lparr>VbUUID = 1, SeqNo = 5, StartSeqNo = 5, EndSeqNo = 5\<rparr>)],
         ledger_dirtyOffsets = [], ledger_anyDirtyOffset = False\<rparr>,
      stream_calls = [], metadata_saves = []\<rparr>"

definition dirty_world :: "ledger checkpoint_world" where
  "dirty_world =
     \<lparr>stream_state =
        \<lparr>ledger_offsets = [(0, \<lparr>VbUUID = 1, SeqNo = 6, StartSeqNo = 5, EndSeqNo = 9\<rparr>)],
         ledger_dirtyOffsets = [(0, True)], ledger_anyDirtyOffset = True\<rparr>,
      stream_calls = [], metadata_saves = []\<rparr>"

text \<open>
  A fresh start: the backend has no state and answers with a zero-value document for each
  vBucket, and the server reports the sequence numbers 5, 0, 12 and 3.
\<close>

definition fresh_metadata :: metadata_load where
  "fresh_metadata ids uuid =
     (map (\<lambda>vbID. (vbID, \<lparr>Checkpoint = \<lparr>cp_VbUUID = 0, cp_SeqNo = 0,
                                 Snapshot = \<lparr>snap_StartSeqNo = 0, snap_EndSeqNo = 0\<rparr>\<rparr>,
                              BucketUUID = uuid\<rparr>)) ids, False, None)"

definition fresh_client :: client where
  "fresh_client =
     \<lparr>GetVBucketSeqNos = ([(0, 5), (1, 0), (2, 12), (3, 3)], None),
      GetFailoverLogs = (\<lambda>vbID. ([\<lparr>fe_VbUUID = 9, fe_SeqNo = 0\<rparr>], None))\<rparr>"

text \<open>
  A backend that reports no existing state and hands back a document whose \<open>vbUUID\<close> is 7,
  while the head of the server's failover log (see \<open>fresh_client\<close>) has \<open>vbUUID\<close> 9.
\<close>

definition stale_metadata :: metadata_load where
  "stale_metadata ids uuid =
     ([(0, \<lparr>Checkpoint = \<lparr>cp_VbUUID = 7, cp_SeqNo = 0,
                            Snapshot = \<lparr>snap_StartSeqNo = 0, snap_EndSeqNo = 0\<rparr>\<rparr>,
             BucketUUID = uuid\<rparr>)], False, None)"

section \<open>ChunkSlice: the loop and its result\<close>

lemma ChunkSlice_loop_result:
  assumes "0 \<le> i" "i \<le> chunks" "length result = nat chunks" "0 \<le> startIndex"
    and "\<forall>k. i \<le> k \<and> k < chunks \<longrightarrow> 0 \<le> chunk_size m f k"
    and "startIndex + sum_list (map (chunk_size m f) [i..chunks - 1]) \<le> int (length slc)"
  shows "ChunkSlice_loop slc chunks m f i startIndex result =
      Inr (take (nat i) result @ split_by_sizes (drop (nat startIndex) slc) (map (\<lambda>k. nat (chunk_size m f k)) [i..chunks - 1]))"
  using assms
proof (induction slc chunks m f i startIndex result rule: ChunkSlice_loop.induct)
  case (1 slc chunks m f i startIndex result)
  show ?case
  proof (cases "i < chunks")
    case False
    with 1 have "i = chunks" by simp
    then show ?thesis using 1 by (subst ChunkSlice_loop.simps) simp
  next
    case True
    define endIndex where "endIndex = startIndex + chunk_size m f i"
    have up: "[i..chunks - 1] = i # [i + 1..chunks - 1]"
      using True by (simp add: upto_rec1)
    have nn: "0 \<le> chunk_size m f i" using 1 True by simp
    have rest_nn: "0 \<le> sum_list (map (chunk_size m f) [i + 1..chunks - 1])"
      using 1 by (intro sum_list_nonneg) auto
    have bound: "endIndex + sum_list (map (chunk_size m f) [i + 1..chunks - 1]) \<le> int (length slc)"
      using 1(7) up by (simp add: endIndex_def)
    have se: "slice_expr slc startIndex endIndex =
        Inr (take (nat (chunk_size m f i)) (drop (nat startIndex) slc))"
      using nn rest_nn bound 1(5) by (simp add: slice_expr_def endIndex_def)
    have e2: "(if i \<ge> f then startIndex + m - 1 else startIndex + m) = endIndex"
      by (simp add: endIndex_def chunk_size_def)
    let ?sub = "take (nat (chunk_size m f i)) (drop (nat startIndex) slc)"
    have len': "length (result[nat i := ?sub]) = nat chunks" using 1 by simp
    have e0: "0 \<le> endIndex" using nn 1(5) by (simp add: endIndex_def)
    have IH: "ChunkSlice_loop slc chunks m f (i + 1) endIndex (result[nat i := take (nat (chunk_size m f i)) (drop (nat startIndex) slc)])
      = Inr (take (nat (i + 1)) (result[nat i := take (nat (chunk_size m f i)) (drop (nat startIndex) slc)]) @
            split_by_sizes (drop (nat endIndex) slc) (map (\<lambda>k. nat (chunk_size m f k)) [i + 1..chunks - 1]))"
      using 1(2-4,6) True
      by (intro 1(1) [OF True refl e2 [symmetric] se] len' e0 bound) auto
    have tk: "take (nat (i + 1)) (result[nat i := ?sub]) = take (nat i) result @ [?sub]"
    proof -
      have "nat i < length result" using 1(2-4) True by simp
      moreover have "nat (i + 1) = Suc (nat i)" using 1(2) by simp
      ultimately show ?thesis by (simp add: take_Suc_conv_app_nth)
    qed
    have dr: "nat (chunk_size m f i) + nat startIndex = nat endIndex"
      using nn 1(5) by (simp add: endIndex_def)
    have "ChunkSlice_loop slc chunks m f i startIndex result =
        ChunkSlice_loop slc chunks m f (i + 1) endIndex (result[nat i := ?sub])"
      using True se e2 by (subst ChunkSlice_loop.simps) (simp add: Let_def)
    then show ?thesis
      by (simp add: IH tk up dr)
  qed
qed


lemma length_split_by_sizes: "length (split_by_sizes s ns) = length ns"
  by (induction ns arbitrary: s) auto

lemma concat_split_by_sizes: "concat (split_by_sizes s ns) = take (sum_list ns) s"
  by (induction ns arbitrary: s) (auto simp: take_add)

lemma nth_split_by_sizes:
  "k < length ns \<Longrightarrow> split_by_sizes s ns ! k = take (ns ! k) (drop (sum_list (take k ns)) s)"
proof (induction ns arbitrary: s k)
  case Nil
  then show ?case by simp
next
  case (Cons n ns)
  show ?case
  proof (cases k)
    case 0
    then show ?thesis by simp
  next
    case (Suc j)
    with Cons show ?thesis by (simp add: add.commute)
  qed
qed

lemma sum_list_map_const:
  "(\<And>x. x \<in> set xs \<Longrightarrow> g x = (v :: int)) \<Longrightarrow> sum_list (map g xs) = int (length xs) * v"
  by (induction xs) (auto simp: algebra_simps)

lemma sum_chunk_size_prefix:
  assumes "0 \<le> f" "0 \<le> k"
  shows "sum_list (map (chunk_size m f) [0..k - 1]) = k * m - (if f \<le> k then k - f else 0)"
proof (cases "f \<le> k")
  case False
  have "sum_list (map (chunk_size m f) [0..k - 1]) = int (length [0..k - 1]) * m"
    using False by (intro sum_list_map_const) (auto simp: chunk_size_def)
  then show ?thesis using False assms by simp
next
  case True
  have sp: "[0..k - 1] = [0..f - 1] @ [f..k - 1]"
  proof (cases "f = k")
    case True
    then show ?thesis by simp
  next
    case False
    with True assms show ?thesis by (intro upto_split1) auto
  qed
  have a: "sum_list (map (chunk_size m f) [0..f - 1]) = int (length [0..f - 1]) * m"
    by (intro sum_list_map_const) (auto simp: chunk_size_def)
  have b: "sum_list (map (chunk_size m f) [f..k - 1]) = int (length [f..k - 1]) * (m - 1)"
    by (intro sum_list_map_const) (auto simp: chunk_size_def)
  show ?thesis using True assms by (simp add: sp a b algebra_simps)
qed

lemma take_upto: "0 \<le> k \<Longrightarrow> k \<le> c \<Longrightarrow> take (nat k) [0..c - 1] = [0..k - 1]"
proof (cases "k = c")
  case True
  assume "0 \<le> k"
  with True show ?thesis by simp
next
  case False
  assume "0 \<le> k" "k \<le> c"
  with False have "[0..c - 1] = [0..k - 1] @ [k..c - 1]" by (intro upto_split1) auto
  moreover have "length [0..k - 1] = nat k" using \<open>0 \<le> k\<close> by simp
  ultimately show ?thesis by simp
qed

lemma sum_list_map_nat:
  "(\<And>x. x \<in> set xs \<Longrightarrow> 0 \<le> g x) \<Longrightarrow> int (sum_list (map (\<lambda>x. nat (g x)) xs)) = sum_list (map g xs)"
  by (induction xs) auto

lemma chunk_consts:
  assumes "1 \<le> c" "0 \<le> n"
  defines "m \<equiv> maxChunkSize_of n c" and "f \<equiv> numFullChunks_of n c"
  shows "0 \<le> f" "f \<le> c" "c * m - (c - f) = n" "\<And>k. 0 \<le> k \<Longrightarrow> k < c \<Longrightarrow> 0 \<le> chunk_size m f k"
proof -
  show c3: "c * m - (c - f) = n" by (simp add: f_def numFullChunks_of_def m_def algebra_simps)
  have mf: "(0 \<le> f \<and> f \<le> c) \<and> (1 \<le> m \<or> (m = 0 \<and> f = c))"
  proof (cases "n = 0")
    case True
    show ?thesis
    proof (cases "c = 1")
      case True
      with \<open>n = 0\<close> show ?thesis by (simp add: m_def f_def maxChunkSize_of_def numFullChunks_of_def quo_def)
    next
      case False
      with assms have "2 \<le> c" by simp
      then have "1 div c = 0" by (simp add: div_pos_pos_trivial)
      with \<open>n = 0\<close> \<open>2 \<le> c\<close> show ?thesis
        by (simp add: m_def f_def maxChunkSize_of_def numFullChunks_of_def quo_def)
    qed
  next
    case False
    with assms have n1: "1 \<le> n" by simp
    then have q: "quo (n - 1) c = (n - 1) div c"
      using assms(1) by (cases "n = 1") (simp_all add: quo_def)
    have e: "n - 1 = (n - 1) div c * c + (n - 1) mod c" by simp
    have r: "0 \<le> (n - 1) mod c" "(n - 1) mod c < c" using assms(1) by simp_all
    have m: "m = (n - 1) div c + 1" by (simp add: m_def maxChunkSize_of_def q)
    have "m * c = (n - 1) div c * c + c" by (simp add: m algebra_simps)
    then have "m * c - n = c - 1 - (n - 1) mod c" using e by linarith
    then have f: "f = (n - 1) mod c + 1" by (simp add: f_def numFullChunks_of_def m_def)
    have "0 \<le> (n - 1) div c" using n1 assms(1) by (simp add: pos_imp_zdiv_nonneg_iff)
    then show ?thesis using f r m by simp
  qed
  then show "0 \<le> f" "f \<le> c" by simp_all
  fix k :: int assume "0 \<le> k" "k < c"
  with mf show "0 \<le> chunk_size m f k" by (auto simp: chunk_size_def)
qed


lemma ChunkSlice_result:
  assumes "1 \<le> c" and "24 * c \<le> maxAlloc"
  shows "ChunkSlice slc c =
    Inr (split_by_sizes slc (map (\<lambda>k. nat (chunk_size (maxChunkSize_of (int (length slc)) c)
        (numFullChunks_of (int (length slc)) c) k)) [0..c - 1]))"
proof -
  define m where "m = maxChunkSize_of (int (length slc)) c"
  define f where "f = numFullChunks_of (int (length slc)) c"
  note cc = chunk_consts [OF assms(1), of "int (length slc)", folded m_def f_def]
  have s: "sum_list (map (chunk_size m f) [0..c - 1]) = int (length slc)"
    using sum_chunk_size_prefix [of f c m] cc(1-3) assms by simp
  have "ChunkSlice_loop slc c m f 0 0 (replicate (nat c) []) =
      Inr (take (nat 0) (replicate (nat c) []) @
        split_by_sizes (drop (nat 0) slc) (map (\<lambda>k. nat (chunk_size m f k)) [0..c - 1]))"
    using assms(1) cc(4) s by (intro ChunkSlice_loop_result) auto
  then show ?thesis using assms by (simp add: ChunkSlice_def Let_def m_def f_def)
qed

lemma ChunkSlice_props:
  fixes slc :: "uint16 list" and c :: int
  assumes "1 \<le> c" and "24 * c \<le> maxAlloc"
  defines "m \<equiv> maxChunkSize_of (int (length slc)) c" and "f \<equiv> numFullChunks_of (int (length slc)) c"
  defines "res \<equiv> expected_chunks slc c"
  shows "ChunkSlice slc c = Inr res" and "length res = nat c" and "concat res = slc"
    and "\<And>k. k < nat c \<Longrightarrow> res ! k = take (nat (chunk_size m f (int k))) (drop (nat (chunk_start m f (int k))) slc)"
    and "\<And>k. k < nat c \<Longrightarrow> int (length (res ! k)) = chunk_size m f (int k)"
proof -
  define ns where "ns = map (\<lambda>k. nat (chunk_size m f k)) [0..c - 1]"
  have res: "res = split_by_sizes slc ns" by (simp add: res_def expected_chunks_def ns_def m_def f_def)
  note cc = chunk_consts [OF assms(1), of "int (length slc)", folded m_def f_def]
  show r: "ChunkSlice slc c = Inr res"
    using ChunkSlice_result [OF assms(1,2), of slc] by (simp add: res ns_def m_def f_def)
  have lns: "length ns = nat c" using assms(1) by (simp add: ns_def)
  show l: "length res = nat c" by (simp add: res length_split_by_sizes lns)
  have pre: "int (sum_list (take (nat k) ns)) = chunk_start m f k" if "0 \<le> k" "k \<le> c" for k
  proof -
    have "take (nat k) ns = map (\<lambda>k. nat (chunk_size m f k)) [0..k - 1]"
      using that by (simp add: ns_def take_map take_upto)
    moreover have "int (sum_list (map (\<lambda>k. nat (chunk_size m f k)) [0..k - 1])) = sum_list (map (chunk_size m f) [0..k - 1])"
      using that cc(4) by (intro sum_list_map_nat) auto
    ultimately show ?thesis
      using sum_chunk_size_prefix [OF cc(1) that(1), of m] by (simp add: chunk_start_def)
  qed
  have tot: "sum_list ns = length slc"
  proof -
    have "int (sum_list (take (nat c) ns)) = chunk_start m f c" using assms(1) by (intro pre) auto
    then have "int (sum_list ns) = int (length slc)" using cc(2,3) lns by (simp add: chunk_start_def)
    then show ?thesis by simp
  qed
  show c: "concat res = slc" by (simp add: res concat_split_by_sizes tot)
  have nk: "ns ! k = nat (chunk_size m f (int k))" if "k < nat c" for k
    using that by (simp add: ns_def)
  show n: "res ! k = take (nat (chunk_size m f (int k))) (drop (nat (chunk_start m f (int k))) slc)"
    if "k < nat c" for k
  proof -
    have "int (sum_list (take (nat (int k)) ns)) = chunk_start m f (int k)" using that by (intro pre) auto
    then have "sum_list (take k ns) = nat (chunk_start m f (int k))" by simp
    then show ?thesis using that lns by (simp add: res nth_split_by_sizes nk)
  qed
  show "int (length (res ! k)) = chunk_size m f (int k)" if "k < nat c" for k
  proof -
    have "chunk_start m f (int k) + chunk_size m f (int k) = chunk_start m f (int k + 1)"
      by (simp add: chunk_start_def chunk_size_def algebra_simps)
    moreover have "int (sum_list (take (nat (int k + 1)) ns)) = chunk_start m f (int k + 1)"
      using that by (intro pre) auto
    moreover have "sum_list (take (nat (int k + 1)) ns) \<le> sum_list ns"
      using sum_list_append [of "take (nat (int k + 1)) ns" "drop (nat (int k + 1)) ns"] by simp
    moreover have "0 \<le> chunk_size m f (int k)"
      using that cc(4) [of "int k"] by auto
    moreover have "0 \<le> chunk_start m f (int k)"
    proof -
      have "int (sum_list (take (nat (int k)) ns)) = chunk_start m f (int k)"
        using that by (intro pre) auto
      then show ?thesis by linarith
    qed
    ultimately show ?thesis using tot by (simp add: n [OF that])
  qed
qed

lemma disjoint_nth_concat:
  assumes "distinct (concat xss)" "i < j" "j < length xss"
  shows "set (xss ! i) \<inter> set (xss ! j) = {}"
proof -
  have "xss = take j xss @ xss ! j # drop (Suc j) xss"
    using assms(3) by (simp add: id_take_nth_drop)
  then have "concat xss = concat (take j xss) @ xss ! j @ concat (drop (Suc j) xss)"
    by (metis concat.simps(2) concat_append)
  with assms(1) have "set (concat (take j xss)) \<inter> set (xss ! j) = {}"
    by auto
  moreover have "xss ! i \<in> set (take j xss)"
    using assms(2,3) by (metis in_set_conv_nth length_take min.absorb2 nth_take less_imp_le)
  ultimately show ?thesis by auto
qed

lemma length_distinct_uint16:
  fixes xs :: "uint16 list"
  assumes "distinct xs"
  shows "length xs \<le> 65536"
proof -
  have "card (set xs) \<le> card (UNIV :: uint16 set)" by (rule card_mono) simp_all
  also have "\<dots> = 65536" by (simp add: card_word)
  finally show ?thesis using assms by (simp add: distinct_card)
qed

lemma distinct_uint16_upto:
  assumes "n \<le> 65536"
  shows "distinct (map of_nat [0..<n] :: uint16 list)"
proof -
  have "inj_on (of_nat :: nat \<Rightarrow> uint16) {0..<n}"
  proof (rule inj_on_inverseI [where g = unat])
    fix k assume "k \<in> {0..<n}"
    with assms have "k < 2 ^ LENGTH(16)" by simp
    then show "unat (of_nat k :: uint16) = k" by (rule of_nat_inverse [OF refl])
  qed
  then show ?thesis by (simp add: distinct_map)
qed

text \<open>
  C10, as the code has it. For every slice \<open>s\<close> and every chunk count \<open>c \<ge> 1\<close> that
  \<open>make\<close> can allocate (\<open>24 * c\<close> bytes within the allocator's limit), also when \<open>c\<close>
  exceeds the length of \<open>s\<close> and when \<open>s\<close> is empty, \<open>ChunkSlice(s, c)\<close> returns (it does
  not panic) exactly \<open>c\<close> sub-slices whose concatenation in order is \<open>s\<close>. When
  \<open>c > len(s)\<close> the first \<open>len(s)\<close> results hold one element each and the others are empty.
\<close>

theorem ChunkSlice_total:
  fixes slc :: "uint16 list"
  assumes "1 \<le> chunks" and "24 * chunks \<le> maxAlloc"
  shows "\<exists>result. ChunkSlice slc chunks = Inr result \<and> length result = nat chunks \<and>
    concat result = slc \<and>
    (int (length slc) < chunks \<longrightarrow>
       (\<forall>i<nat chunks. result ! i = (if i < length slc then [slc ! i] else [])))"
proof -
  define m where "m = maxChunkSize_of (int (length slc)) chunks"
  define f where "f = numFullChunks_of (int (length slc)) chunks"
  define res where "res = expected_chunks slc chunks"
  note p = ChunkSlice_props [OF assms, where slc = slc, folded m_def f_def res_def]
  note res = p(1-3) and nth = p(4)
  have "res ! i = (if i < length slc then [slc ! i] else [])"
    if lt: "int (length slc) < chunks" and i: "i < nat chunks" for i
  proof (cases "slc = [] \<and> chunks = 1")
    case True
    then have "res ! i = take 0 slc @ []" using nth [OF i] by simp
    with True show ?thesis by simp
  next
    case False
    have q: "quo (int (length slc) - 1) chunks = 0"
    proof (cases "slc = []")
      case True
      with False assms(1) have "2 \<le> chunks" by simp
      then have "1 div chunks = 0" by (simp add: div_pos_pos_trivial)
      with True \<open>2 \<le> chunks\<close> show ?thesis by (simp add: quo_def)
    next
      case False
      then have "1 \<le> int (length slc)" by (cases slc) simp_all
      then show ?thesis using lt by (cases "int (length slc) = 1") (simp_all add: quo_def div_pos_pos_trivial)
    qed
    then have m: "m = 1" by (simp add: m_def maxChunkSize_of_def)
    then have f: "f = int (length slc)" by (simp add: f_def numFullChunks_of_def m_def)
    show ?thesis
    proof (cases "i < length slc")
      case True
      then have "res ! i = take 1 (drop i slc)"
        using nth [OF i] by (simp add: m f chunk_size_def chunk_start_def)
      also have "\<dots> = [slc ! i]" using True by (simp add: take_Suc_conv_app_nth)
      finally show ?thesis using True by simp
    next
      case False
      then have "res ! i = take 0 (drop (nat (chunk_start m f (int i))) slc)"
        using nth [OF i] by (simp add: m f chunk_size_def)
      with False show ?thesis by simp
    qed
  qed
  then have "int (length slc) < chunks \<longrightarrow>
       (\<forall>i<nat chunks. res ! i = (if i < length slc then [slc ! i] else []))" by simp
  with res show ?thesis by (intro exI [of _ res]) simp
qed

theorem ChunkSlice_total_witness:
  "(1::int) \<le> 5 \<and> 24 * 5 \<le> maxAlloc \<and> int (length [7, 8, 9 :: uint16]) < 5 \<and>
   (\<exists>result. ChunkSlice [7, 8, 9] 5 = Inr result \<and> length result = 5 \<and> concat result = [7, 8, 9] \<and>
      result ! 0 = [7] \<and> result ! 1 = [8] \<and> result ! 2 = [9] \<and> result ! 3 = [] \<and> result ! 4 = [])"
proof -
  have h: "(1::int) \<le> 5" by simp
  have b: "24 * 5 \<le> maxAlloc" by (simp add: maxAlloc_def)
  obtain result where r: "ChunkSlice [7, 8, 9] 5 = Inr result" "length result = nat 5"
      "concat result = [7, 8, 9 :: uint16]"
    and n: "int (length [7, 8, 9 :: uint16]) < 5 \<longrightarrow>
      (\<forall>i<nat 5. result ! i = (if i < length [7, 8, 9 :: uint16] then [[7, 8, 9] ! i] else []))"
    using ChunkSlice_total [OF h b, of "[7, 8, 9]"] by blast
  have a: "\<And>i. i < 5 \<Longrightarrow> result ! i = (if i < 3 then [[7, 8, 9] ! i] else [])"
    using n by simp
  have "result ! 0 = [7]" "result ! 1 = [8]" "result ! 2 = [9]" "result ! 3 = []" "result ! 4 = []"
    using a [of 0] a [of 1] a [of 2] a [of 3] a [of 4] by simp_all
  with r b show ?thesis by simp
qed

text \<open>
  C10 as stated, for every chunk count \<open>c \<ge> 1\<close>, fails for a count beyond what \<open>make\<close> can
  allocate: with \<open>c = 2^62\<close> the call panics with \<open>makeslice: len out of range\<close> and
  returns no sub-slices.
\<close>

theorem ChunkSlice_huge_counterexample:
  "(1::int) \<le> 2 ^ 62 \<and> ChunkSlice [7, 8, 9] (2 ^ 62) = Inl MakeSliceLenOutOfRange"
  by (simp add: ChunkSlice_def maxAlloc_def Let_def)

text \<open>
  C1. For a list of \<open>N \<ge> 1\<close> distinct vBucket IDs (the sorted list \<open>0..N-1\<close> in
  particular) and \<open>1 \<le> M \<le> N\<close> members, \<open>ChunkSlice\<close> yields \<open>M\<close> pairwise disjoint
  contiguous ranges whose union is the whole list. With
  \<open>maxChunkSize = ((N-1)/M)+1\<close> and \<open>numFullChunks = M - (maxChunkSize*M - N)\<close>, the members
  \<open>1..numFullChunks\<close> (indices below \<open>numFullChunks\<close>) receive \<open>maxChunkSize\<close> IDs each and
  the later ones \<open>maxChunkSize - 1\<close>, so two shares differ in size by at most one. The
  instance \<open>N = 1024\<close>, \<open>M = 3\<close> follows it: shares of 342, 341 and 341 IDs.
\<close>

theorem ChunkSlice_partition:
  fixes ids :: "uint16 list" and M :: int
  assumes "1 \<le> M" and "M \<le> int (length ids)" and "distinct ids"
  shows "\<exists>result maxChunkSize numFullChunks.
      maxChunkSize = (int (length ids) - 1) div M + 1 \<and>
      numFullChunks = M - (maxChunkSize * M - int (length ids)) \<and>
      maxChunkSize = maxChunkSize_of (int (length ids)) M \<and>
      numFullChunks = numFullChunks_of (int (length ids)) M \<and>
      ChunkSlice ids M = Inr result \<and>
      length result = nat M \<and>
      concat result = ids \<and>
      (\<forall>i<nat M. \<forall>j<nat M. i \<noteq> j \<longrightarrow> set (result ! i) \<inter> set (result ! j) = {}) \<and>
      \<Union> (set ` set result) = set ids \<and>
      (\<forall>i<nat M. result ! i =
         take (length (result ! i))
           (drop (nat (int i * maxChunkSize - (if numFullChunks \<le> int i then int i - numFullChunks else 0))) ids)) \<and>
      (\<forall>i<nat M. int (length (result ! i)) =
         (if int i < numFullChunks then maxChunkSize else maxChunkSize - 1)) \<and>
      (\<forall>i<nat M. \<forall>j<nat M. \<bar>int (length (result ! i)) - int (length (result ! j))\<bar> \<le> 1)"
proof -
  define m where "m = maxChunkSize_of (int (length ids)) M"
  define f where "f = numFullChunks_of (int (length ids)) M"
  define res where "res = expected_chunks ids M"
  have "length ids \<le> 65536" using assms(3) by (rule length_distinct_uint16)
  with assms(2) have b: "24 * M \<le> maxAlloc" by (simp add: maxAlloc_def)
  note p = ChunkSlice_props [OF assms(1) b, where slc = ids, folded m_def f_def res_def]
  note res = p(1-3) and nth = p(4) and len = p(5)
  have "quo (int (length ids) - 1) M = (int (length ids) - 1) div M"
    using assms(1,2) by (cases "int (length ids) = 1") (simp_all add: quo_def)
  then have m: "m = (int (length ids) - 1) div M + 1" by (simp add: m_def maxChunkSize_of_def)
  have f: "f = M - (m * M - int (length ids))" by (simp add: f_def m_def numFullChunks_of_def)
  have disj: "set (res ! i) \<inter> set (res ! j) = {}" if "i < nat M" "j < nat M" "i \<noteq> j" for i j
  proof (cases "i < j")
    case True
    then show ?thesis using disjoint_nth_concat [of res i j] res(2,3) assms(3) that by simp
  next
    case False
    with that have "j < i" by simp
    then show ?thesis using disjoint_nth_concat [of res j i] res(2,3) assms(3) that by auto
  qed
  have un: "\<Union> (set ` set res) = set ids"
    using res(3) by (metis set_concat)
  have sz: "int (length (res ! i)) = (if int i < f then m else m - 1)" if "i < nat M" for i
    using len [OF that] by (simp add: chunk_size_def)
  have rng: "res ! i = take (length (res ! i))
      (drop (nat (int i * m - (if f \<le> int i then int i - f else 0))) ids)" if "i < nat M" for i
  proof -
    have "length (res ! i) = nat (chunk_size m f (int i))" using len [OF that] by simp
    then show ?thesis using nth [OF that] by (simp add: chunk_start_def)
  qed
  have diff: "\<bar>int (length (res ! i)) - int (length (res ! j))\<bar> \<le> 1" if "i < nat M" "j < nat M" for i j
    using sz [OF that(1)] sz [OF that(2)] by (simp split: if_splits)
  show ?thesis
  proof (intro exI conjI)
    show "m = (int (length ids) - 1) div M + 1" by (fact m)
    show "f = M - (m * M - int (length ids))" by (fact f)
    show "m = maxChunkSize_of (int (length ids)) M" by (fact m_def)
    show "f = numFullChunks_of (int (length ids)) M" by (fact f_def)
    show "ChunkSlice ids M = Inr res" by (fact res(1))
    show "length res = nat M" by (fact res(2))
    show "concat res = ids" by (fact res(3))
    show "\<forall>i<nat M. \<forall>j<nat M. i \<noteq> j \<longrightarrow> set (res ! i) \<inter> set (res ! j) = {}"
      using disj by simp
    show "\<Union> (set ` set res) = set ids" by (fact un)
    show "\<forall>i<nat M. res ! i = take (length (res ! i))
      (drop (nat (int i * m - (if f \<le> int i then int i - f else 0))) ids)"
      using rng by simp
    show "\<forall>i<nat M. int (length (res ! i)) = (if int i < f then m else m - 1)"
      using sz by simp
    show "\<forall>i<nat M. \<forall>j<nat M. \<bar>int (length (res ! i)) - int (length (res ! j))\<bar> \<le> 1"
      using diff by simp
  qed
qed


theorem ChunkSlice_partition_witness:
  "(1::int) \<le> 3 \<and> 3 \<le> int (length (map of_nat [0..<1024] :: uint16 list)) \<and>
   distinct (map of_nat [0..<1024] :: uint16 list) \<and>
   (\<exists>result. ChunkSlice (map of_nat [0..<1024]) 3 = Inr result \<and> length result = 3 \<and>
      concat result = map of_nat [0..<1024] \<and>
      length (result ! 0) = 342 \<and> length (result ! 1) = 341 \<and> length (result ! 2) = 341 \<and>
      set (result ! 0) \<inter> set (result ! 1) = {} \<and>
      set (result ! 0) \<inter> set (result ! 2) = {} \<and>
      set (result ! 1) \<inter> set (result ! 2) = {})"
proof -
  let ?ids = "map of_nat [0..<1024] :: uint16 list"
  have h1: "(1::int) \<le> 3" by simp
  have len: "int (length ?ids) = 1024" by (simp only: length_map length_upt)
  have h2: "3 \<le> int (length ?ids)" unfolding len by simp
  have h3: "distinct ?ids" by (rule distinct_uint16_upto) simp
  from ChunkSlice_partition [OF h1 h2 h3]
  obtain result m f where mf: "m = (int (length ?ids) - 1) div 3 + 1"
      "f = 3 - (m * 3 - int (length ?ids))"
    and r: "ChunkSlice ?ids 3 = Inr result" "length result = nat 3" "concat result = ?ids"
    and d: "\<forall>i<nat 3. \<forall>j<nat 3. i \<noteq> j \<longrightarrow> set (result ! i) \<inter> set (result ! j) = {}"
    and s: "\<forall>i<nat 3. int (length (result ! i)) = (if int i < f then m else m - 1)"
    by (elim exE conjE) (rule that)
  have m: "m = 342" using mf(1) unfolding len by simp
  have f: "f = 1" using mf(2) unfolding len m by simp
  have s': "\<And>i. i < 3 \<Longrightarrow> int (length (result ! i)) = (if int i < 1 then 342 else 341)"
    using s by (simp add: m f)
  have d': "\<And>i j. i < 3 \<Longrightarrow> j < 3 \<Longrightarrow> i \<noteq> j \<Longrightarrow> set (result ! i) \<inter> set (result ! j) = {}"
    using d by simp
  have "length (result ! 0) = 342" "length (result ! 1) = 341" "length (result ! 2) = 341"
    using s' [of 0] s' [of 1] s' [of 2] by simp_all
  moreover have "set (result ! 0) \<inter> set (result ! 1) = {}" "set (result ! 0) \<inter> set (result ! 2) = {}"
      "set (result ! 1) \<inter> set (result ! 2) = {}"
    using d' [of 0 1] d' [of 0 2] d' [of 1 2] by simp_all
  moreover have "length result = 3" using r(2) by simp
  ultimately show ?thesis using r(1,3) h1 h2 h3 by blast
qed

section \<open>The client\<close>

lemma open_calls_append: "open_calls (xs @ ys) = open_calls xs @ open_calls ys"
  by (induction xs rule: open_calls.induct) simp_all

text \<open>
  C3. When the first open of \<open>OpenStream\<close> completes with a DCP rollback error that carries
  the sequence number \<open>R\<close>, the client opens the stream again with \<open>vbUUID = 0\<close>, start
  sequence number \<open>R\<close>, end sequence number \<open>0xFFFFFFFFFFFFFFFF\<close> and the snapshot window
  \<open>R..R\<close>; the completion callback of the second open hands its failover logs to
  \<open>SetFailoverLogs\<close>; and \<open>OpenStream\<close> returns the result of the second open, so it
  returns \<open>nil\<close> whenever the second open succeeds.
\<close>

theorem OpenStream_rollback_reopens:
  assumes "dcpAgent (open_calls tr @
             [\<lparr>arg_vbID = vbID, arg_flags = 0, arg_vbUUID = VbUUID offset,
               arg_startSeqNo = SeqNo offset, arg_endSeqNo = 0xffffffffffffffff,
               arg_snapStartSeqNo = StartSeqNo offset, arg_snapEndSeqNo = EndSeqNo offset,
               arg_opts = stream_options hcs collectionIDs\<rparr>]) =
           CallbackInvoked logs1 (Some (DCPRollbackError R))"
  shows "\<exists>first reopen tr2.
     first = \<lparr>arg_vbID = vbID, arg_flags = 0, arg_vbUUID = VbUUID offset,
              arg_startSeqNo = SeqNo offset, arg_endSeqNo = 0xffffffffffffffff,
              arg_snapStartSeqNo = StartSeqNo offset, arg_snapEndSeqNo = EndSeqNo offset,
              arg_opts = stream_options hcs collectionIDs\<rparr> \<and>
     reopen = \<lparr>arg_vbID = vbID, arg_flags = 0, arg_vbUUID = 0, arg_startSeqNo = R,
               arg_endSeqNo = 0xffffffffffffffff, arg_snapStartSeqNo = R, arg_snapEndSeqNo = R,
               arg_opts = stream_options hcs collectionIDs\<rparr> \<and>
     tr2 = tr @ [AgentOpenStream first, SetFailoverLogs vbID logs1, AgentOpenStream reopen] \<and>
     OpenStream dcpAgent hcs vbID collectionIDs offset tr =
       (case dcpAgent (open_calls tr @ [first, reopen]) of
          CallbackInvoked logs2 err2 \<Rightarrow> (err2, tr2 @ [SetFailoverLogs vbID logs2])
        | DispatchFailed err2 \<Rightarrow> (Some err2, tr2)
        | ContextDone err2 \<Rightarrow> (Some err2, tr2)) \<and>
     (\<forall>logs2. dcpAgent (open_calls tr @ [first, reopen]) = CallbackInvoked logs2 None \<longrightarrow>
        OpenStream dcpAgent hcs vbID collectionIDs offset tr =
          (None, tr2 @ [SetFailoverLogs vbID logs2]))"
  using assms
  by (simp add: OpenStream_def openStreamWithRollback_def Let_def open_calls_append
      Wait_def callback_error_def open_callback_def split: async_outcome.splits)

theorem OpenStream_rollback_reopens_witness:
  "rollback_agent (open_calls [] @
     [\<lparr>arg_vbID = 7, arg_flags = 0, arg_vbUUID = VbUUID resume_offset,
       arg_startSeqNo = SeqNo resume_offset, arg_endSeqNo = 0xffffffffffffffff,
       arg_snapStartSeqNo = StartSeqNo resume_offset, arg_snapEndSeqNo = EndSeqNo resume_offset,
       arg_opts = stream_options False None\<rparr>]) =
     CallbackInvoked [] (Some (DCPRollbackError 42)) \<and>
   OpenStream rollback_agent False 7 None resume_offset [] =
     (None,
      [AgentOpenStream
         \<lparr>arg_vbID = 7, arg_flags = 0, arg_vbUUID = 0xAA, arg_startSeqNo = 100,
          arg_endSeqNo = 0xffffffffffffffff, arg_snapStartSeqNo = 100, arg_snapEndSeqNo = 200,
          arg_opts = \<lparr>FilterOptions = None\<rparr>\<rparr>,
       SetFailoverLogs 7 [],
       AgentOpenStream
         \<lparr>arg_vbID = 7, arg_flags = 0, arg_vbUUID = 0, arg_startSeqNo = 42,
          arg_endSeqNo = 0xffffffffffffffff, arg_snapStartSeqNo = 42, arg_snapEndSeqNo = 42,
          arg_opts = \<lparr>FilterOptions = None\<rparr>\<rparr>,
       SetFailoverLogs 7 [\<lparr>fe_VbUUID = 0xBEEF, fe_SeqNo = 42\<rparr>]])"
proof -
  have h: "rollback_agent (open_calls [] @
     [\<lparr>arg_vbID = 7, arg_flags = 0, arg_vbUUID = VbUUID resume_offset,
       arg_startSeqNo = SeqNo resume_offset, arg_endSeqNo = 0xffffffffffffffff,
       arg_snapStartSeqNo = StartSeqNo resume_offset, arg_snapEndSeqNo = EndSeqNo resume_offset,
       arg_opts = stream_options False None\<rparr>]) =
     CallbackInvoked [] (Some (DCPRollbackError 42))"
    by (simp add: rollback_agent_def)
  from OpenStream_rollback_reopens [where dcpAgent = rollback_agent and tr = "[]" and vbID = 7
      and offset = resume_offset and hcs = False and collectionIDs = None and ?logs1.0 = "[]"
      and R = 42, OF h] h
  show ?thesis
    by (simp add: rollback_agent_def resume_offset_def stream_options_def)
qed

text \<open>
  C6. \<open>OpenStream\<close> first asks the agent for the stream with exactly the values of the
  stored offset \<open>O\<close>: \<open>vbUUID = O.vbUUID\<close>, start sequence number \<open>O.seqNo\<close>, end sequence
  number \<open>0xFFFFFFFFFFFFFFFF\<close>, snapshot window \<open>O.startSeqNo..O.endSeqNo\<close>; and when no
  rollback error comes back this is the only request it makes.
\<close>

theorem OpenStream_requests_offset:
  "(\<exists>rest. snd (OpenStream dcpAgent hcs vbID collectionIDs offset tr) =
       tr @ AgentOpenStream
              \<lparr>arg_vbID = vbID, arg_flags = 0, arg_vbUUID = VbUUID offset,
               arg_startSeqNo = SeqNo offset, arg_endSeqNo = 0xffffffffffffffff,
               arg_snapStartSeqNo = StartSeqNo offset, arg_snapEndSeqNo = EndSeqNo offset,
               arg_opts = stream_options hcs collectionIDs\<rparr> # rest) \<and>
   ((\<forall>logs R. dcpAgent (open_calls tr @
        [\<lparr>arg_vbID = vbID, arg_flags = 0, arg_vbUUID = VbUUID offset,
          arg_startSeqNo = SeqNo offset, arg_endSeqNo = 0xffffffffffffffff,
          arg_snapStartSeqNo = StartSeqNo offset, arg_snapEndSeqNo = EndSeqNo offset,
          arg_opts = stream_options hcs collectionIDs\<rparr>]) \<noteq>
        CallbackInvoked logs (Some (DCPRollbackError R))) \<longrightarrow>
    open_calls (snd (OpenStream dcpAgent hcs vbID collectionIDs offset tr)) =
      open_calls tr @
        [\<lparr>arg_vbID = vbID, arg_flags = 0, arg_vbUUID = VbUUID offset,
          arg_startSeqNo = SeqNo offset, arg_endSeqNo = 0xffffffffffffffff,
          arg_snapStartSeqNo = StartSeqNo offset, arg_snapEndSeqNo = EndSeqNo offset,
          arg_opts = stream_options hcs collectionIDs\<rparr>])"
  by (auto simp add: OpenStream_def openStreamWithRollback_def Let_def open_calls_append
      Wait_def callback_error_def open_callback_def
      split: async_outcome.splits option.splits error.splits)

theorem OpenStream_requests_offset_witness:
  "Load resume_metadata fresh_client sample_checkpoint = Inr ([(0, resume_offset)], [], False) \<and>
   (\<forall>logs R. ok_agent (open_calls [] @
        [\<lparr>arg_vbID = 0, arg_flags = 0, arg_vbUUID = VbUUID resume_offset,
          arg_startSeqNo = SeqNo resume_offset, arg_endSeqNo = 0xffffffffffffffff,
          arg_snapStartSeqNo = StartSeqNo resume_offset, arg_snapEndSeqNo = EndSeqNo resume_offset,
          arg_opts = stream_options False None\<rparr>]) \<noteq>
        CallbackInvoked logs (Some (DCPRollbackError R))) \<and>
   open_calls (snd (OpenStream ok_agent False 0 None resume_offset [])) =
     [\<lparr>arg_vbID = 0, arg_flags = 0, arg_vbUUID = 0xAA, arg_startSeqNo = 100,
       arg_endSeqNo = 0xffffffffffffffff, arg_snapStartSeqNo = 100, arg_snapEndSeqNo = 200,
       arg_opts = \<lparr>FilterOptions = None\<rparr>\<rparr>]"
proof -
  have l: "Load resume_metadata fresh_client sample_checkpoint = Inr ([(0, resume_offset)], [], False)"
    by (simp add: Load_def resume_metadata_def sample_checkpoint_def resume_offset_def
        CheckpointAutoResetTypeLatest_def)
  have h: "\<forall>logs R. ok_agent (open_calls [] @
        [\<lparr>arg_vbID = 0, arg_flags = 0, arg_vbUUID = VbUUID resume_offset,
          arg_startSeqNo = SeqNo resume_offset, arg_endSeqNo = 0xffffffffffffffff,
          arg_snapStartSeqNo = StartSeqNo resume_offset, arg_snapEndSeqNo = EndSeqNo resume_offset,
          arg_opts = stream_options False None\<rparr>]) \<noteq>
        CallbackInvoked logs (Some (DCPRollbackError R))"
    by (simp add: ok_agent_def)
  from OpenStream_requests_offset [of ok_agent False 0 None resume_offset "[]"] h l show ?thesis
    by (simp add: resume_offset_def stream_options_def)
qed

text \<open>
  C8. Whenever the root-CA file is read successfully, \<open>tlsRootCaProvider\<close> builds a new
  certificate pool and appends the PEM contents of the file to it, but returns \<open>nil\<close> and
  not the pool it built; so the provider that \<open>getSecurityConfig\<close> installs for a secure
  connection yields a \<open>nil\<close> root-CA pool.
\<close>

theorem tlsRootCaProvider_returns_nil:
  assumes "ReadFile os (ExpandEnv os (RootCAPath cfg)) = Inr cert"
  shows "tlsRootCaProvider_body os cfg = Inr (AppendCertsFromPEM NewCertPool cert, None) \<and>
    tlsRootCaProvider os cfg = Inr None \<and>
    tlsRootCaProvider os cfg \<noteq> Inr (Some (AppendCertsFromPEM NewCertPool cert)) \<and>
    (SecureConnection cfg \<longrightarrow>
       UseTLS (getSecurityConfig os cfg) \<and>
       (\<exists>provider. TLSRootCAProvider (getSecurityConfig os cfg) = Some provider \<and>
          provider () = Inr None))"
  using assms
  by (simp add: tlsRootCaProvider_body_def tlsRootCaProvider_def getSecurityConfig_def Let_def)

theorem tlsRootCaProvider_returns_nil_witness:
  "ReadFile sample_os (ExpandEnv sample_os (RootCAPath sample_config)) = Inr [45, 45, 45] \<and>
   SecureConnection sample_config \<and>
   tlsRootCaProvider_body sample_os sample_config = Inr ([[45, 45, 45]], None) \<and>
   tlsRootCaProvider sample_os sample_config = Inr None \<and>
   UseTLS (getSecurityConfig sample_os sample_config) \<and>
   (\<exists>provider. TLSRootCAProvider (getSecurityConfig sample_os sample_config) = Some provider \<and>
      provider () = Inr None)"
proof -
  have h: "ReadFile sample_os (ExpandEnv sample_os (RootCAPath sample_config)) = Inr [45, 45, 45]"
    by (simp add: sample_os_def sample_config_def)
  have s: "SecureConnection sample_config" by (simp add: sample_config_def)
  from tlsRootCaProvider_returns_nil [OF h] h s show ?thesis
    by (simp add: NewCertPool_def AppendCertsFromPEM_def)
qed

text \<open>
  C9. \<open>DeleteDocument\<close> never reports failure: whatever the delete operation does (it fails
  at dispatch, its callback carries an error, or it succeeds), \<open>DeleteDocument\<close> returns
  normally, without an error value, and leaves the same trace; a caller cannot tell a failed
  delete from a successful one.
\<close>

theorem DeleteDocument_outcome_invisible:
  "DeleteDocument metaAgent deadline scopeName collectionName key tr =
     tr @ [\<lparr>Key = key, Deadline = deadline, ScopeName = scopeName, CollectionName = collectionName\<rparr>] \<and>
   DeleteDocument (\<lambda>calls. DispatchFailed err) deadline scopeName collectionName key tr =
     DeleteDocument (\<lambda>calls. CallbackInvoked () None) deadline scopeName collectionName key tr \<and>
   DeleteDocument (\<lambda>calls. CallbackInvoked () (Some err)) deadline scopeName collectionName key tr =
     DeleteDocument (\<lambda>calls. CallbackInvoked () None) deadline scopeName collectionName key tr"
  by (simp add: DeleteDocument_def Let_def)


section \<open>The checkpoint manager\<close>

lemma Save_clean:
  "\<not> anyDirty s w \<Longrightarrow>
     Save metadata s w = w\<lparr>stream_calls := stream_calls w @ [LockOffsets, CallGetOffsets, UnlockOffsets]\<rparr>"
  by (simp add: Save_def Let_def call_stream_def anyDirty_def case_prod_beta)

lemma Save_dirty:
  "anyDirty s w \<Longrightarrow>
     Save metadata s w =
       (case metadata (metadata_saves w @ [the_save_call s w]) of
          None \<Rightarrow> w\<lparr>stream_state := UnmarkDirtyOffsets (stream s) (stream_state w),
                     stream_calls := stream_calls w @ [LockOffsets, CallGetOffsets, CallUnmarkDirtyOffsets, UnlockOffsets],
                     metadata_saves := metadata_saves w @ [the_save_call s w]\<rparr>
        | Some err \<Rightarrow> w\<lparr>stream_calls := stream_calls w @ [LockOffsets, CallGetOffsets, UnlockOffsets],
                     metadata_saves := metadata_saves w @ [the_save_call s w]\<rparr>)"
  by (simp add: Save_def Let_def call_stream_def anyDirty_def the_save_call_def case_prod_beta split: option.splits)

lemma anyDirty_calls [simp]: "anyDirty s (w\<lparr>stream_calls := c\<rparr>) = anyDirty s w"
  by (simp add: anyDirty_def)

lemma anyDirty_saves [simp]: "anyDirty s (w\<lparr>metadata_saves := c\<rparr>) = anyDirty s w"
  by (simp add: anyDirty_def)

lemma the_save_call_calls [simp]: "the_save_call s (w\<lparr>stream_calls := c\<rparr>) = the_save_call s w"
  by (simp add: the_save_call_def)

lemma the_save_call_saves [simp]: "the_save_call s (w\<lparr>metadata_saves := c\<rparr>) = the_save_call s w"
  by (simp add: the_save_call_def)

lemma Load_latest_loop_offsets:
  "distinct (map fst dump) \<Longrightarrow>
   map_of (fst (Load_latest_loop seqNoMap dump (os, ds, a))) vb =
     (case map_of dump vb of
        Some doc \<Rightarrow> Some (reset_offset seqNoMap vb doc)
      | None \<Rightarrow> map_of os vb)"
proof (induction dump arbitrary: os ds a vb)
  case Nil
  then show ?case by simp
next
  case (Cons p dump)
  obtain k doc where p: "p = (k, doc)" by (cases p)
  from Cons.prems have nk: "map_of dump k = None" and d: "distinct (map fst dump)"
    by (auto simp: p map_of_eq_None_iff)
  show ?case
    using nk by (auto simp: p Let_def Cons.IH [OF d] update_conv' reset_offset_def split: option.splits)
qed

lemma Load_latest_loop_dirty:
  "map_of (fst (snd (Load_latest_loop seqNoMap dump (os, ds, a)))) vb =
     (if vb \<in> fst ` set dump \<and> map_index seqNoMap 0 vb \<noteq> 0 then Some True else map_of ds vb)"
proof (induction dump arbitrary: os ds a)
  case Nil
  then show ?case by simp
next
  case (Cons p dump)
  obtain k doc where p: "p = (k, doc)" by (cases p)
  show ?case
    by (auto simp: p Let_def Cons.IH update_conv')
qed

lemma Load_latest_loop_any:
  "snd (snd (Load_latest_loop seqNoMap dump (os, ds, a))) \<longleftrightarrow>
     a \<or> (\<exists>vb \<in> fst ` set dump. map_index seqNoMap 0 vb \<noteq> 0)"
proof (induction dump arbitrary: os ds a)
  case Nil
  then show ?case by simp
next
  case (Cons p dump)
  obtain k doc where p: "p = (k, doc)" by (cases p)
  show ?case
    by (auto simp: p Let_def Cons.IH)
qed

text \<open>
  C4. If no offset is dirty (the any-dirty flag is false), \<open>Save\<close> returns before it builds
  any checkpoint document: it makes no call on the metadata backend and leaves the state of
  the stream as it was. So of two \<open>Save\<close> calls in a row, with no change of the offsets
  between them, the second writes nothing: when nothing was dirty before the first, when
  nothing is dirty after the first, and so, for a stream whose \<open>UnmarkDirtyOffsets\<close> clears
  the flag, whenever the write of the first did not fail.
\<close>

theorem Save_clean_writes_nothing:
  "(\<not> anyDirty s w \<longrightarrow>
      metadata_saves (Save metadata s w) = metadata_saves w \<and>
      stream_state (Save metadata s w) = stream_state w \<and>
      new_stream_calls metadata s w = [LockOffsets, CallGetOffsets, UnlockOffsets] \<and>
      metadata_saves (Save metadata s (Save metadata s w)) = metadata_saves w \<and>
      stream_state (Save metadata s (Save metadata s w)) = stream_state w) \<and>
   (\<not> anyDirty s (Save metadata s w) \<longrightarrow>
      metadata_saves (Save metadata s (Save metadata s w)) = metadata_saves (Save metadata s w) \<and>
      stream_state (Save metadata s (Save metadata s w)) = stream_state (Save metadata s w)) \<and>
   ((\<forall>st. \<not> snd (snd (GetOffsets (stream s) (UnmarkDirtyOffsets (stream s) st)))) \<and>
    (\<not> anyDirty s w \<or> metadata (metadata_saves w @ [the_save_call s w]) = None) \<longrightarrow>
      metadata_saves (Save metadata s (Save metadata s w)) = metadata_saves (Save metadata s w))"
proof -
  have a: "metadata_saves (Save metadata s w') = metadata_saves w' \<and>
      stream_state (Save metadata s w') = stream_state w' \<and> \<not> anyDirty s (Save metadata s w') \<and>
      new_stream_calls metadata s w' = [LockOffsets, CallGetOffsets, UnlockOffsets]"
    if "\<not> anyDirty s w'" for w'
    using that by (simp add: Save_clean new_stream_calls_def)
  have c: "\<not> anyDirty s (Save metadata s w)"
    if u: "\<forall>st. \<not> snd (snd (GetOffsets (stream s) (UnmarkDirtyOffsets (stream s) st)))"
      and ok: "\<not> anyDirty s w \<or> metadata (metadata_saves w @ [the_save_call s w]) = None"
  proof (cases "anyDirty s w")
    case False
    then show ?thesis using a by blast
  next
    case True
    with ok have "metadata (metadata_saves w @ [the_save_call s w]) = None" by simp
    with True u show ?thesis by (simp add: Save_dirty anyDirty_def)
  qed
  show ?thesis
    using a [of w] a [of "Save metadata s w"] c by auto
qed

theorem Save_clean_writes_nothing_witness:
  "\<not> anyDirty sample_checkpoint clean_world \<and>
   metadata_saves (Save ok_backend sample_checkpoint clean_world) = [] \<and>
   stream_state (Save ok_backend sample_checkpoint clean_world) = stream_state clean_world \<and>
   metadata_saves (Save ok_backend sample_checkpoint (Save ok_backend sample_checkpoint clean_world)) = [] \<and>
   (\<forall>st. \<not> snd (snd (GetOffsets (stream sample_checkpoint) (UnmarkDirtyOffsets (stream sample_checkpoint) st)))) \<and>
   anyDirty sample_checkpoint dirty_world \<and>
   ok_backend (metadata_saves dirty_world @ [the_save_call sample_checkpoint dirty_world]) = None \<and>
   \<not> anyDirty sample_checkpoint (Save ok_backend sample_checkpoint dirty_world) \<and>
   metadata_saves (Save ok_backend sample_checkpoint dirty_world) =
     [the_save_call sample_checkpoint dirty_world] \<and>
   metadata_saves (Save ok_backend sample_checkpoint (Save ok_backend sample_checkpoint dirty_world)) =
     [the_save_call sample_checkpoint dirty_world]"
proof -
  have h1: "\<not> anyDirty sample_checkpoint clean_world"
    by (simp add: anyDirty_def sample_checkpoint_def clean_world_def ledger_stream_def)
  have h2: "\<forall>st. \<not> snd (snd (GetOffsets (stream sample_checkpoint) (UnmarkDirtyOffsets (stream sample_checkpoint) st)))"
    by (simp add: sample_checkpoint_def ledger_stream_def)
  have h3: "anyDirty sample_checkpoint dirty_world"
    by (simp add: anyDirty_def sample_checkpoint_def dirty_world_def ledger_stream_def)
  have h4: "ok_backend (metadata_saves dirty_world @ [the_save_call sample_checkpoint dirty_world]) = None"
    by (simp add: ok_backend_def)
  have s1: "metadata_saves (Save ok_backend sample_checkpoint dirty_world) =
     [the_save_call sample_checkpoint dirty_world]"
    using h3 h4 by (simp add: Save_dirty) (simp add: dirty_world_def)
  have c0: "metadata_saves clean_world = []" by (simp add: clean_world_def)
  have h5: "\<not> anyDirty sample_checkpoint (Save ok_backend sample_checkpoint dirty_world)"
    using h2 h3 h4 by (simp add: Save_dirty anyDirty_def)
  from Save_clean_writes_nothing [of sample_checkpoint clean_world ok_backend]
    Save_clean_writes_nothing [of sample_checkpoint dirty_world ok_backend]
    h1 h2 h3 h4 h5 s1 c0
  show ?thesis by simp
qed

text \<open>
  C5. If the metadata backend's \<open>Save\<close> returns an error, the checkpoint \<open>Save\<close> does not
  call \<open>UnmarkDirtyOffsets\<close>: the state of the stream is what it was, so every offset that
  was dirty is still dirty, and the next \<open>Save\<close> (the next tick) makes the same write
  again. \<open>UnmarkDirtyOffsets\<close> is called only when the backend write succeeded.
\<close>

theorem Save_backend_error_keeps_dirty:
  "(anyDirty s w \<and> metadata (metadata_saves w @ [the_save_call s w]) = Some err \<longrightarrow>
      stream_state (Save metadata s w) = stream_state w \<and>
      new_stream_calls metadata s w = [LockOffsets, CallGetOffsets, UnlockOffsets] \<and>
      metadata_saves (Save metadata s w) = metadata_saves w @ [the_save_call s w] \<and>
      metadata_saves (Save metadata s (Save metadata s w)) =
        metadata_saves w @ [the_save_call s w, the_save_call s w]) \<and>
   (CallUnmarkDirtyOffsets \<in> set (new_stream_calls metadata s w) \<longleftrightarrow>
      anyDirty s w \<and> metadata (metadata_saves w @ [the_save_call s w]) = None)"
proof -
  have 1: "stream_state (Save metadata s w) = stream_state w \<and>
      new_stream_calls metadata s w = [LockOffsets, CallGetOffsets, UnlockOffsets] \<and>
      metadata_saves (Save metadata s w) = metadata_saves w @ [the_save_call s w] \<and>
      metadata_saves (Save metadata s (Save metadata s w)) =
        metadata_saves w @ [the_save_call s w, the_save_call s w]"
    if "anyDirty s w" "metadata (metadata_saves w @ [the_save_call s w]) = Some err"
  proof -
    let ?w1 = "w\<lparr>stream_calls := stream_calls w @ [LockOffsets, CallGetOffsets, UnlockOffsets],
                     metadata_saves := metadata_saves w @ [the_save_call s w]\<rparr>"
    have s1: "Save metadata s w = ?w1" using that by (simp add: Save_dirty)
    have "anyDirty s ?w1" using that(1) by simp
    then have "metadata_saves (Save metadata s ?w1) = metadata_saves ?w1 @ [the_save_call s ?w1]"
      by (simp add: Save_dirty split: option.splits)
    then show ?thesis by (simp add: s1 new_stream_calls_def)
  qed
  have 2: "CallUnmarkDirtyOffsets \<in> set (new_stream_calls metadata s w) \<longleftrightarrow>
      anyDirty s w \<and> metadata (metadata_saves w @ [the_save_call s w]) = None"
    by (cases "anyDirty s w") (simp_all add: Save_dirty Save_clean new_stream_calls_def split: option.splits)
  show ?thesis using 1 2 by blast
qed

theorem Save_backend_error_keeps_dirty_witness:
  "anyDirty sample_checkpoint dirty_world \<and>
   failing_backend (metadata_saves dirty_world @ [the_save_call sample_checkpoint dirty_world]) =
     Some (OtherError ''write failed'') \<and>
   stream_state (Save failing_backend sample_checkpoint dirty_world) = stream_state dirty_world \<and>
   ledger_dirtyOffsets (stream_state (Save failing_backend sample_checkpoint dirty_world)) = [(0, True)] \<and>
   CallUnmarkDirtyOffsets \<notin> set (new_stream_calls failing_backend sample_checkpoint dirty_world) \<and>
   length (metadata_saves (Save failing_backend sample_checkpoint
     (Save failing_backend sample_checkpoint dirty_world))) = 2"
proof -
  have h1: "anyDirty sample_checkpoint dirty_world"
    by (simp add: anyDirty_def sample_checkpoint_def dirty_world_def ledger_stream_def)
  have h2: "failing_backend (metadata_saves dirty_world @ [the_save_call sample_checkpoint dirty_world]) =
     Some (OtherError ''write failed'')"
    by (simp add: failing_backend_def)
  have d: "ledger_dirtyOffsets (stream_state dirty_world) = [(0, True)]" "metadata_saves dirty_world = []"
    by (simp_all add: dirty_world_def)
  from Save_backend_error_keeps_dirty [of sample_checkpoint dirty_world failing_backend
      "OtherError ''write failed''"] h1 h2 d
  show ?thesis by simp
qed

text \<open>
  C2, as the code has it. If \<open>Load\<close> finds no persisted state and \<open>autoReset\<close> is
  \<open>latest\<close>, then for every vBucket the backend answered for, the returned offset has
  \<open>seqNo\<close>, \<open>startSeqNo\<close> and \<open>endSeqNo\<close> equal to the server's current sequence number
  of the vBucket, and its \<open>vbUUID\<close> is the one of the document the backend returned for the
  vBucket (the failover log is not consulted). The vBucket is marked dirty if and only if
  its current sequence number is greater than 0, and the any-dirty flag is true if and only
  if some vBucket has a current sequence number greater than 0.
\<close>

theorem Load_auto_reset_latest:
  assumes "metadata (vbIds s) (bucketUUID s) = (dump, False, None)"
    and "AutoReset s = ''latest''"
    and "GetVBucketSeqNos cl = (seqNoMap, None)"
    and "distinct (map fst dump)"
  shows "\<exists>offsets dirtyOffsets anyDirtyOffset.
     Load metadata cl s = Inr (offsets, dirtyOffsets, anyDirtyOffset) \<and>
     (\<forall>vbID doc. map_of dump vbID = Some doc \<longrightarrow>
        map_of offsets vbID =
          Some \<lparr>VbUUID = cp_VbUUID (Checkpoint doc), SeqNo = map_index seqNoMap 0 vbID,
                StartSeqNo = map_index seqNoMap 0 vbID, EndSeqNo = map_index seqNoMap 0 vbID\<rparr>) \<and>
     (\<forall>vbID. map_of dump vbID = None \<longrightarrow> map_of offsets vbID = None) \<and>
     (\<forall>vbID. map_of dirtyOffsets vbID = Some True \<longleftrightarrow>
        vbID \<in> fst ` set dump \<and> 0 < map_index seqNoMap 0 vbID) \<and>
     (\<forall>vbID. map_of dirtyOffsets vbID \<noteq> Some False) \<and>
     (anyDirtyOffset \<longleftrightarrow> (\<exists>vbID \<in> fst ` set dump. 0 < map_index seqNoMap 0 vbID))"
proof -
  define r where "r = Load_latest_loop seqNoMap dump ([], [], False)"
  have L: "Load metadata cl s = Inr (fst r, fst (snd r), snd (snd r))"
    using assms(1-3) by (simp add: Load_def Let_def CheckpointAutoResetTypeLatest_def r_def)
  have o: "map_of (fst r) vb = (case map_of dump vb of Some doc \<Rightarrow> Some (reset_offset seqNoMap vb doc) | None \<Rightarrow> None)" for vb
    unfolding r_def using Load_latest_loop_offsets [OF assms(4), of seqNoMap "[]" "[]" False vb]
    by (simp split: option.splits)
  have d: "map_of (fst (snd r)) vb = (if vb \<in> fst ` set dump \<and> map_index seqNoMap 0 vb \<noteq> 0 then Some True else None)" for vb
    unfolding r_def using Load_latest_loop_dirty [of seqNoMap dump "[]" "[]" False vb] by simp
  have a: "snd (snd r) \<longleftrightarrow> (\<exists>vb \<in> fst ` set dump. map_index seqNoMap 0 vb \<noteq> 0)"
    unfolding r_def using Load_latest_loop_any [of seqNoMap dump "[]" "[]" False] by simp
  show ?thesis
  proof (intro exI conjI)
    show "Load metadata cl s = Inr (fst r, fst (snd r), snd (snd r))" by (fact L)
    show "\<forall>vbID doc. map_of dump vbID = Some doc \<longrightarrow>
        map_of (fst r) vbID =
          Some \<lparr>VbUUID = cp_VbUUID (Checkpoint doc), SeqNo = map_index seqNoMap 0 vbID,
                StartSeqNo = map_index seqNoMap 0 vbID, EndSeqNo = map_index seqNoMap 0 vbID\<rparr>"
      by (simp add: o reset_offset_def)
    show "\<forall>vbID. map_of dump vbID = None \<longrightarrow> map_of (fst r) vbID = None"
      by (simp add: o)
    show "\<forall>vbID. map_of (fst (snd r)) vbID = Some True \<longleftrightarrow>
        vbID \<in> fst ` set dump \<and> 0 < map_index seqNoMap 0 vbID"
      by (simp add: d word_gt_0)
    show "\<forall>vbID. map_of (fst (snd r)) vbID \<noteq> Some False"
      by (simp add: d)
    show "snd (snd r) \<longleftrightarrow> (\<exists>vbID \<in> fst ` set dump. 0 < map_index seqNoMap 0 vbID)"
      by (simp add: a word_gt_0)
  qed
qed


theorem Load_auto_reset_latest_witness:
  "fresh_metadata (vbIds sample_checkpoint) (bucketUUID sample_checkpoint) =
     (fst (fresh_metadata [0, 1, 2, 3] ''bucket-1''), False, None) \<and>
   AutoReset sample_checkpoint = ''latest'' \<and>
   GetVBucketSeqNos fresh_client = ([(0, 5), (1, 0), (2, 12), (3, 3)], None) \<and>
   distinct (map fst (fst (fresh_metadata [0, 1, 2, 3] ''bucket-1''))) \<and>
   (\<exists>offsets dirtyOffsets anyDirtyOffset.
      Load fresh_metadata fresh_client sample_checkpoint = Inr (offsets, dirtyOffsets, anyDirtyOffset) \<and>
      map_of offsets 0 = Some \<lparr>VbUUID = 0, SeqNo = 5, StartSeqNo = 5, EndSeqNo = 5\<rparr> \<and>
      map_of offsets 1 = Some \<lparr>VbUUID = 0, SeqNo = 0, StartSeqNo = 0, EndSeqNo = 0\<rparr> \<and>
      map_of offsets 2 = Some \<lparr>VbUUID = 0, SeqNo = 12, StartSeqNo = 12, EndSeqNo = 12\<rparr> \<and>
      map_of offsets 3 = Some \<lparr>VbUUID = 0, SeqNo = 3, StartSeqNo = 3, EndSeqNo = 3\<rparr> \<and>
      {vbID. map_of dirtyOffsets vbID = Some True} = {0, 2, 3} \<and>
      anyDirtyOffset)"
proof -
  let ?dump = "fst (fresh_metadata [0, 1, 2, 3] ''bucket-1'')"
  let ?seq = "[(0, 5), (1, 0), (2, 12), (3, 3)] :: (uint16 \<times> uint64) list"
  have h1: "fresh_metadata (vbIds sample_checkpoint) (bucketUUID sample_checkpoint) = (?dump, False, None)"
    by (simp add: fresh_metadata_def sample_checkpoint_def)
  have h2: "AutoReset sample_checkpoint = ''latest''" by (simp add: sample_checkpoint_def)
  have h3: "GetVBucketSeqNos fresh_client = (?seq, None)" by (simp add: fresh_client_def)
  have h4: "distinct (map fst ?dump)" by (simp add: fresh_metadata_def)
  from Load_auto_reset_latest [where metadata = fresh_metadata and s = sample_checkpoint
      and cl = fresh_client and dump = ?dump and seqNoMap = ?seq, OF h1 h2 h3 h4]
  obtain offsets dirtyOffsets anyDirtyOffset where
    L: "Load fresh_metadata fresh_client sample_checkpoint = Inr (offsets, dirtyOffsets, anyDirtyOffset)"
    and o: "\<forall>vbID doc. map_of ?dump vbID = Some doc \<longrightarrow>
        map_of offsets vbID =
          Some \<lparr>VbUUID = cp_VbUUID (Checkpoint doc), SeqNo = map_index ?seq 0 vbID,
                StartSeqNo = map_index ?seq 0 vbID, EndSeqNo = map_index ?seq 0 vbID\<rparr>"
    and d: "\<forall>vbID. map_of dirtyOffsets vbID = Some True \<longleftrightarrow>
        vbID \<in> fst ` set ?dump \<and> 0 < map_index ?seq 0 vbID"
    and a: "anyDirtyOffset \<longleftrightarrow> (\<exists>vbID \<in> fst ` set ?dump. 0 < map_index ?seq 0 vbID)"
    by (elim exE conjE) (rule that)
  have o0: "map_of offsets 0 = Some \<lparr>VbUUID = 0, SeqNo = 5, StartSeqNo = 5, EndSeqNo = 5\<rparr>"
    using o [rule_format, of 0] by (simp add: fresh_metadata_def map_index_def)
  have o1: "map_of offsets 1 = Some \<lparr>VbUUID = 0, SeqNo = 0, StartSeqNo = 0, EndSeqNo = 0\<rparr>"
    using o [rule_format, of 1] by (simp add: fresh_metadata_def map_index_def)
  have o2: "map_of offsets 2 = Some \<lparr>VbUUID = 0, SeqNo = 12, StartSeqNo = 12, EndSeqNo = 12\<rparr>"
    using o [rule_format, of 2] by (simp add: fresh_metadata_def map_index_def)
  have o3: "map_of offsets 3 = Some \<lparr>VbUUID = 0, SeqNo = 3, StartSeqNo = 3, EndSeqNo = 3\<rparr>"
    using o [rule_format, of 3] by (simp add: fresh_metadata_def map_index_def)
  have ds: "{vbID. map_of dirtyOffsets vbID = Some True} = {0, 2, 3}"
    using d by (auto simp: fresh_metadata_def map_index_def)
  have an: "anyDirtyOffset" using a by (simp add: fresh_metadata_def map_index_def)
  show ?thesis using h1 h2 h3 h4 L o0 o1 o2 o3 ds an by blast
qed

text \<open>
  C2 as stated fails on the \<open>vbUUID\<close>. The head of the server's failover log has
  \<open>vbUUID\<close> 9. With a backend that has no state and answers with zero-value documents,
  the offset of vBucket 0 gets \<open>vbUUID\<close> 0, not 9: the failover log is not read. With a
  backend that reports no state and yet hands back a document with \<open>vbUUID\<close> 7, the offset
  gets 7, which is neither 9 nor 0.
\<close>

theorem Load_vbUUID_counterexample:
  "map fe_VbUUID (fst (GetFailoverLogs fresh_client 0)) = [9] \<and>
   Load fresh_metadata fresh_client (sample_checkpoint\<lparr>vbIds := [0]\<rparr>) =
     Inr ([(0, \<lparr>VbUUID = 0, SeqNo = 5, StartSeqNo = 5, EndSeqNo = 5\<rparr>)], [(0, True)], True) \<and>
   Load stale_metadata fresh_client sample_checkpoint =
     Inr ([(0, \<lparr>VbUUID = 7, SeqNo = 5, StartSeqNo = 5, EndSeqNo = 5\<rparr>)], [(0, True)], True) \<and>
   (0 :: uint64) \<noteq> 9 \<and> (7 :: uint64) \<noteq> 9 \<and> (7 :: uint64) \<noteq> 0"
  by (simp add: Load_def stale_metadata_def fresh_metadata_def fresh_client_def
      sample_checkpoint_def CheckpointAutoResetTypeLatest_def map_index_def)

section \<open>GetCheckpointId\<close>

lemma format_loop_positional: "2 \<le> b \<Longrightarrow> format_loop b u buf = positional b u @ buf"
proof (induction b u buf rule: format_loop.induct)
  case (1 base u buf)
  show ?case
  proof (cases "base \<le> u")
    case True
    with 1 show ?thesis
      by (subst format_loop.simps, subst positional.simps) simp
  next
    case False
    then show ?thesis
      by (subst format_loop.simps, subst positional.simps) simp
  qed
qed

lemma digit_value_digit_char: "d < 16 \<Longrightarrow> digit_value (digit_char d) = d"
proof -
  assume "d < 16"
  then have "d \<in> {0, 1, 2, 3, 4, 5, 6, 7, 8, 9, 10, 11, 12, 13, 14, 15}" by simp arith
  then show ?thesis
    by (auto simp: digit_value_def digit_char_def)
qed

lemma string_value_snoc: "string_value b (s @ [c]) = string_value b s * b + digit_value c"
  by (simp add: string_value_def)

lemma string_value_positional:
  "2 \<le> b \<Longrightarrow> b \<le> 16 \<Longrightarrow> string_value b (positional b n) = n"
proof (induction b n rule: positional.induct)
  case (1 b n)
  show ?case
  proof (cases "b \<le> n")
    case True
    have "n mod b < b" using 1(2) by simp
    then have "n mod b < 16" using 1(3) by simp
    with True 1 show ?thesis
      by (subst positional.simps) (simp add: string_value_snoc digit_value_digit_char)
  next
    case False
    with 1(2,3) have "n < 16" by simp
    with False show ?thesis
      by (subst positional.simps) (simp add: string_value_def digit_value_digit_char)
  qed
qed

lemma string_value_fixed_hex: "string_value 16 (fixed_hex k n) = n mod 16 ^ k"
proof (induction k arbitrary: n)
  case 0
  then show ?case by (simp add: string_value_def)
next
  case (Suc k)
  have "n mod 16 ^ Suc k = (n div 16) mod 16 ^ k * 16 + n mod 16"
    by (simp add: mod_mult2_eq mult.commute)
  then show ?case
    by (simp add: string_value_snoc Suc.IH digit_value_digit_char)
qed

lemma length_fixed_hex [simp]: "length (fixed_hex k n) = k"
  by (induction k arbitrary: n) simp_all

lemma fixed_hex_0: "fixed_hex k 0 = replicate k CHR ''0''"
  by (induction k) (simp_all add: digit_char_def replicate_append_same)

lemma length_positional: "n < 16 ^ k \<Longrightarrow> 0 < k \<Longrightarrow> length (positional 16 n) \<le> k"
proof (induction k arbitrary: n)
  case 0
  then show ?case by simp
next
  case (Suc k)
  show ?case
  proof (cases "16 \<le> n")
    case False
    then show ?thesis by (subst positional.simps) simp
  next
    case True
    with Suc.prems have k: "0 < k" by (cases k) simp_all
    have "n div 16 < 16 ^ k" using Suc.prems(1) by (simp add: less_mult_imp_div_less mult.commute)
    from Suc.IH [OF this k] True show ?thesis by (subst positional.simps) simp
  qed
qed

lemma padded_fixed_hex:
  "n < 16 ^ k \<Longrightarrow> 0 < k \<Longrightarrow>
   replicate (k - length (positional 16 n)) CHR ''0'' @ positional 16 n = fixed_hex k n"
proof (induction k arbitrary: n)
  case 0
  then show ?case by simp
next
  case (Suc k)
  show ?case
  proof (cases "16 \<le> n")
    case False
    then have p: "positional 16 n = [digit_char n]" by (subst positional.simps) simp
    from False have "n div 16 = 0" "n mod 16 = n" by simp_all
    then show ?thesis by (simp add: p fixed_hex_0)
  next
    case True
    with Suc.prems have k: "0 < k" by (cases k) simp_all
    have d: "n div 16 < 16 ^ k" using Suc.prems(1) by (simp add: less_mult_imp_div_less mult.commute)
    have p: "positional 16 n = positional 16 (n div 16) @ [digit_char (n mod 16)]"
      using True by (subst positional.simps) simp
    have "length (positional 16 (n div 16)) \<le> k" by (rule length_positional [OF d k])
    then have "Suc k - length (positional 16 n) = k - length (positional 16 (n div 16))"
      by (simp add: p)
    then show ?thesis using Suc.IH [OF d k] by (simp add: p)
  qed
qed

lemma table_step_IEEE: "table_step IEEE = crc32_bit"
proof
  fix c :: uint32
  have "c AND 1 = 1 \<longleftrightarrow> bit c 0"
    by (cases "even c") (simp_all add: and_one_eq bit_0 even_iff_mod_2_eq_zero odd_iff_mod_2_eq_one)
  then show "table_step IEEE c = crc32_bit c"
    by (simp add: table_step_def crc32_bit_def IEEE_def)
qed

lemma crc32_bit_xor: "crc32_bit (a XOR b) = crc32_bit a XOR crc32_bit b"
  by (simp add: crc32_bit_def bit_0 even_xor_iff xor.assoc xor.commute xor.left_commute)

lemma crc32_bits_xor: "(crc32_bit ^^ n) (a XOR b) = (crc32_bit ^^ n) a XOR (crc32_bit ^^ n) b"
  by (induction n) (simp_all add: crc32_bit_xor)

lemma crc32_bits_high:
  assumes "take_bit 8 h = 0" "k \<le> 8"
  shows "(crc32_bit ^^ k) h = drop_bit k h"
  using assms(2)
proof (induction k)
  case 0
  then show ?case by simp
next
  case (Suc k)
  then have k: "k < 8" by simp
  have "\<not> bit (take_bit 8 h) k" using assms(1) by simp
  then have "\<not> bit h k" using k by (simp add: bit_take_bit_iff)
  then have "\<not> bit (drop_bit k h) 0" by (simp add: bit_drop_bit_eq)
  then have "crc32_bit (drop_bit k h) = drop_bit (Suc k) h"
    by (simp add: crc32_bit_def)
  with Suc show ?case by simp
qed

lemma split_low_byte:
  fixes c :: uint32 and v :: uint8
  shows "c XOR ucast v = ucast ((ucast c :: uint8) XOR v) XOR push_bit 8 (drop_bit 8 c)"
  by (rule bit_word_eqI) (auto simp: bit_simps)

lemma IEEETable_nth:
  fixes x :: uint8
  shows "IEEETable ! unat x = (crc32_bit ^^ 8) (ucast x)"
proof -
  have "unat x < 256" using unsigned_less [of x, where 'a = nat] by simp
  then show ?thesis
    by (simp add: IEEETable_def simpleMakeTable_def table_step_IEEE)
qed

lemma table_update_crc32_byte:
  fixes crc :: uint32 and v :: uint8
  shows "IEEETable ! unat ((ucast crc :: uint8) XOR v) XOR drop_bit 8 crc = crc32_byte crc v"
proof -
  have "take_bit 8 (push_bit 8 (drop_bit 8 crc)) = 0"
    by (rule bit_word_eqI) (auto simp: bit_simps)
  then have "(crc32_bit ^^ 8) (push_bit 8 (drop_bit 8 crc)) = drop_bit 8 (push_bit 8 (drop_bit 8 crc))"
    by (rule crc32_bits_high) simp
  also have "\<dots> = drop_bit 8 crc"
    by (rule bit_word_eqI) (auto simp: bit_simps dest: bit_imp_le_length)
  finally have h: "(crc32_bit ^^ 8) (push_bit 8 (drop_bit 8 crc)) = drop_bit 8 crc" .
  have "crc32_byte crc v =
      (crc32_bit ^^ 8) (ucast ((ucast crc :: uint8) XOR v) XOR push_bit 8 (drop_bit 8 crc))"
    unfolding crc32_byte_def by (subst split_low_byte) (rule refl)
  then show ?thesis by (simp only: crc32_bits_xor h IEEETable_nth)
qed

lemma fold_table_update:
  "fold (\<lambda>v crc. IEEETable ! unat ((ucast crc :: uint8) XOR v) XOR drop_bit 8 crc) p c = foldl crc32_byte c p"
  by (induction p arbitrary: c) (simp_all add: table_update_crc32_byte)

lemma Checksum_crc32_ieee: "Checksum data IEEETable = crc32_ieee data"
proof -
  have e: "(0xFFFFFFFF :: uint32) = - 1" by simp
  show ?thesis
    by (simp add: Checksum_def simpleUpdate_def fold_table_update crc32_ieee_def e)
qed

lemma digit_char_hex: "d < 16 \<Longrightarrow> digit_char d \<in> set ''0123456789abcdef''"
proof -
  assume "d < 16"
  then have "d < length ''0123456789abcdef''" by simp
  then show ?thesis unfolding digit_char_def by (rule nth_mem)
qed

lemma set_fixed_hex: "set (fixed_hex k n) \<subseteq> set ''0123456789abcdef''"
proof (induction k arbitrary: n)
  case 0
  then show ?case by simp
next
  case (Suc k)
  have "digit_char (n mod 16) \<in> set ''0123456789abcdef''" by (rule digit_char_hex) simp
  with Suc [of "n div 16"] show ?case by simp
qed

lemma Itoa_nonneg: "Itoa (uint w) = positional 10 (unat w)"
  by (simp add: Itoa_def format_loop_positional)

lemma Sprintf_x_positional: "Sprintf_x u = positional 16 u"
  by (simp add: Sprintf_x_def format_loop_positional)

lemma Sprintf_08x_fixed:
  fixes c :: uint32
  shows "Sprintf_08x (unat c) = fixed_hex 8 (unat c)"
proof -
  have "unat c < 2 ^ 32" using unsigned_less [of c, where 'a = nat] by simp
  then have "unat c < 16 ^ 8" by simp
  then show ?thesis
    by (simp add: Sprintf_08x_def format_loop_positional padded_fixed_hex)
qed

lemma fixed_hex_numeral:
  "fixed_hex (numeral k) n = fixed_hex (pred_numeral k) (n div 16) @ [digit_char (n mod 16)]"
proof -
  have "numeral k = Suc (pred_numeral k)" by (rule numeral_eq_Suc)
  then have "fixed_hex (numeral k) n = fixed_hex (Suc (pred_numeral k)) n" by (rule arg_cong)
  then show ?thesis by (simp only: fixed_hex.simps)
qed

lemma crc32_byte_unfold:
  "crc32_byte c v =
     crc32_bit (crc32_bit (crc32_bit (crc32_bit (crc32_bit (crc32_bit (crc32_bit (crc32_bit
       (c XOR ucast v))))))))"
proof -
  have "(8 :: nat) = Suc (Suc (Suc (Suc (Suc (Suc (Suc (Suc 0)))))))" by simp
  then show ?thesis unfolding crc32_byte_def by (simp only: funpow.simps o_apply id_apply)
qed

text \<open>
  C7. For every vBucket ID and group name, the checkpoint key
  \<open>GetCheckpointId(vbId, groupName)\<close> is the prefix, then the group name, then
  \<open>:checkpoint:\<close>, then the vBucket ID in decimal, then \<open>#\<close>, then the CRC-32 (IEEE)
  checksum, written as 8 zero-padded lowercase hexadecimal digits, of the lowercase
  hexadecimal representation of the vBucket ID.
\<close>

theorem GetCheckpointId_format:
  "GetCheckpointId Prefix vbId groupName =
     Prefix @ groupName @ '':checkpoint:'' @ positional 10 (unat vbId) @ ''#'' @
       fixed_hex 8 (unat (crc32_ieee (bytes_of (positional 16 (unat vbId))))) \<and>
   string_value 10 (positional 10 (unat vbId)) = unat vbId \<and>
   string_value 16 (positional 16 (unat vbId)) = unat vbId \<and>
   length (fixed_hex 8 (unat (crc32_ieee (bytes_of (positional 16 (unat vbId)))))) = 8 \<and>
   set (fixed_hex 8 (unat (crc32_ieee (bytes_of (positional 16 (unat vbId)))))) \<subseteq>
     set ''0123456789abcdef'' \<and>
   string_value 16 (fixed_hex 8 (unat (crc32_ieee (bytes_of (positional 16 (unat vbId)))))) =
     unat (crc32_ieee (bytes_of (positional 16 (unat vbId))))"
proof -
  let ?crc = "crc32_ieee (bytes_of (positional 16 (unat vbId)))"
  have "unat ?crc < 2 ^ 32" using unsigned_less [of ?crc, where 'a = nat] by simp
  then have v: "unat ?crc mod 16 ^ 8 = unat ?crc" by simp
  have g: "GetCheckpointId Prefix vbId groupName =
     Prefix @ groupName @ '':checkpoint:'' @ positional 10 (unat vbId) @ ''#'' @ fixed_hex 8 (unat ?crc)"
    by (simp add: GetCheckpointId_def Let_def Itoa_nonneg Sprintf_x_positional
        Checksum_crc32_ieee Sprintf_08x_fixed)
  show ?thesis
    using g v set_fixed_hex [of 8 "unat ?crc"]
    by (simp add: string_value_positional string_value_fixed_hex del: fixed_hex.simps)
qed

theorem GetCheckpointId_example:
  "GetCheckpointId ''_connector:cbgo:'' 1023 ''group'' = ''_connector:cbgo:group:checkpoint:1023#4e1a8a97''"
proof -
  have u: "unat (1023 :: uint16) = 1023" by simp
  have d: "positional 10 1023 = ''1023''" by (simp add: positional.simps [of 10] digit_char_def)
  have x: "positional 16 1023 = ''3ff''" by (simp add: positional.simps [of 16] digit_char_def)
  have c: "crc32_ieee (bytes_of ''3ff'') = 0x4e1a8a97"
    by (simp add: crc32_ieee_def bytes_of_def crc32_byte_unfold crc32_bit_def)
  have h: "fixed_hex 8 (unat (0x4e1a8a97 :: uint32)) = ''4e1a8a97''"
    by (simp add: fixed_hex_numeral digit_char_def)
  from GetCheckpointId_format [of "''_connector:cbgo:''" 1023 "''group''"]
  have "GetCheckpointId ''_connector:cbgo:'' 1023 ''group'' =
     ''_connector:cbgo:'' @ ''group'' @ '':checkpoint:'' @ positional 10 (unat (1023 :: uint16)) @ ''#'' @
       fixed_hex 8 (unat (crc32_ieee (bytes_of (positional 16 (unat (1023 :: uint16))))))"
    by (rule conjunct1)
  then show ?thesis by (simp only: u d x c h append.simps)
qed

end
